theory Spec2Isabelle
  imports Complex_Main "HOL-Library.Multiset" "HOL-Library.Char_ord" "HOL-Library.List_Lexorder"
begin

section \<open>Ingestion path (scripts/ingest_emails_imap.js)\<close>

subsection \<open>Strings\<close>

text \<open>
  A JavaScript string is modelled as a \<open>string\<close> of ASCII text: the case mappings below
  act on the ASCII letters and \<open>isSpace\<close> holds the ASCII members of the regular
  expression class \<open>\s\<close> (which is also what \<open>trim\<close> removes). Characters above 127
  are outside the model.
\<close>

definition isSpace :: "char \<Rightarrow> bool" where
  "isSpace c = (of_char c \<in> {9, 10, 11, 12, 13, 32 :: nat})"

text \<open>The class \<open>\w\<close>: letters, digits and the underscore.\<close>

definition isWord :: "char \<Rightarrow> bool" where
  "isWord c =
     (let n = of_char c :: nat
      in (48 \<le> n \<and> n \<le> 57) \<or> (65 \<le> n \<and> n \<le> 90) \<or> n = 95 \<or> (97 \<le> n \<and> n \<le> 122))"

definition toLowerCase_char :: "char \<Rightarrow> char" where
  "toLowerCase_char c =
     (let n = of_char c :: nat in if 65 \<le> n \<and> n \<le> 90 then char_of (n + 32) else c)"

definition toUpperCase_char :: "char \<Rightarrow> char" where
  "toUpperCase_char c =
     (let n = of_char c :: nat in if 97 \<le> n \<and> n \<le> 122 then char_of (n - 32) else c)"

definition toLowerCase :: "string \<Rightarrow> string" where
  "toLowerCase s = map toLowerCase_char s"

definition trim :: "string \<Rightarrow> string" where
  "trim s = rev (dropWhile isSpace (rev (dropWhile isSpace s)))"

text \<open>\<open>s.startsWith(p)\<close>, and the same under the \<open>i\<close> flag of a regular expression.\<close>

definition startsWith :: "string \<Rightarrow> string \<Rightarrow> bool" where
  "startsWith p s = (take (length p) s = p)"

definition startsWithCI :: "string \<Rightarrow> string \<Rightarrow> bool" where
  "startsWithCI p s = (toLowerCase (take (length p) s) = toLowerCase p)"

text \<open>\<open>s.includes(p)\<close>.\<close>

fun includes_str :: "string \<Rightarrow> string \<Rightarrow> bool" where
  "includes_str [] p = (p = [])"
| "includes_str (c # cs) p = (startsWith p (c # cs) \<or> includes_str cs p)"

text \<open>
  \<open>replace(/\s+/g, " ")\<close>: every run of white space becomes one blank. The flag says
  whether the previous character was white space.
\<close>

fun collapseSpaces :: "bool \<Rightarrow> string \<Rightarrow> string" where
  "collapseSpaces inRun [] = []"
| "collapseSpaces inRun (c # cs) =
     (if isSpace c then (if inRun then collapseSpaces True cs else CHR '' '' # collapseSpaces True cs)
      else c # collapseSpaces False cs)"

text \<open>
  A phrase of a pattern \<open>\b(p1|p2|...)\b\<close> matches at the head of \<open>s\<close> when \<open>s\<close> starts
  with it and a word boundary follows. Every phrase used below starts and ends with a
  letter, so the leading \<open>\b\<close> holds exactly when the previous character is not a word
  character, and the trailing one when the next character is not.
\<close>

definition phraseAt :: "bool \<Rightarrow> string \<Rightarrow> string \<Rightarrow> bool" where
  "phraseAt ci p s =
     ((if ci then startsWithCI p s else startsWith p s)
      \<and> (case drop (length p) s of [] \<Rightarrow> True | c # _ \<Rightarrow> \<not> isWord c))"

text \<open>
  \<open>replace(/\b(p1|p2|...)\b/gi, "")\<close>: scan from the left, the first alternative that
  matches at a position is cut out and the scan goes on behind it. \<open>prevWord\<close> says
  whether the character before the position is a word character.
\<close>

fun removePhrases :: "string list \<Rightarrow> bool \<Rightarrow> string \<Rightarrow> string" where
  "removePhrases ps prevWord [] = []"
| "removePhrases ps prevWord (c # cs) =
     (case (if prevWord then None else find (\<lambda>p. phraseAt True p (c # cs)) ps) of
        Some p \<Rightarrow> removePhrases ps True (drop (length p - 1) cs)
      | None \<Rightarrow> c # removePhrases ps (isWord c) cs)"

text \<open>\<open>/\b(p1|p2|...)\b/.test(s)\<close>, without the \<open>i\<close> flag.\<close>

fun hasPhrase :: "string list \<Rightarrow> bool \<Rightarrow> string \<Rightarrow> bool" where
  "hasPhrase ps prevWord [] = False"
| "hasPhrase ps prevWord (c # cs) =
     ((\<not> prevWord \<and> list_ex (\<lambda>p. phraseAt False p (c # cs)) ps) \<or> hasPhrase ps (isWord c) cs)"

text \<open>
  \<open>replace(/^\s*(fwd?|fw|re)\s*:\s*/i, "")\<close>: the alternatives in the order the
  matcher tries them; each must be followed by optional white space and a colon.
\<close>

definition afterColon :: "string \<Rightarrow> string option" where
  "afterColon rest =
     (case dropWhile isSpace rest of
        [] \<Rightarrow> None
      | c # r \<Rightarrow> if c = CHR '':'' then Some (dropWhile isSpace r) else None)"

fun stripTag :: "string list \<Rightarrow> string \<Rightarrow> string option" where
  "stripTag [] s = None"
| "stripTag (t # ts) s =
     (case (if startsWithCI t s then afterColon (drop (length t) s) else None) of
        Some r \<Rightarrow> Some r
      | None \<Rightarrow> stripTag ts s)"

definition stripReplyPrefix :: "string \<Rightarrow> string" where
  "stripReplyPrefix s =
     (case stripTag [''fwd'', ''fw'', ''fw'', ''re''] (dropWhile isSpace s) of
        Some r \<Rightarrow> r
      | None \<Rightarrow> s)"

text \<open>\<open>normalizeSubject\<close> (lines 62-70), on a string.\<close>

definition normalizeSubject :: "string \<Rightarrow> string" where
  "normalizeSubject subject =
     trim (collapseSpaces False
       (map (\<lambda>c. if isWord c \<or> isSpace c \<or> c = CHR ''-'' then c else CHR '' '')
         (removePhrases [''alert'', ''advisory'', ''service update'', ''notification''] False
           (removePhrases [''caltrain''] False
             (stripReplyPrefix subject)))))"

text \<open>
  \<open>slugify\<close> (lines 72-78). \<open>squashNonAlnum\<close> is \<open>replace(/[^a-z0-9]+/g, "-")\<close>, the
  flag saying whether the previous character was already replaced.
\<close>

definition isLowerAlnum :: "char \<Rightarrow> bool" where
  "isLowerAlnum c =
     (let n = of_char c :: nat in (48 \<le> n \<and> n \<le> 57) \<or> (97 \<le> n \<and> n \<le> 122))"

fun squashNonAlnum :: "bool \<Rightarrow> string \<Rightarrow> string" where
  "squashNonAlnum inRun [] = []"
| "squashNonAlnum inRun (c # cs) =
     (if isLowerAlnum c then c # squashNonAlnum False cs
      else if inRun then squashNonAlnum True cs
      else CHR ''-'' # squashNonAlnum True cs)"

definition isDash :: "char \<Rightarrow> bool" where
  "isDash c = (c = CHR ''-'')"

definition slugify :: "string \<Rightarrow> string" where
  "slugify text =
     (let slug = take 60 (rev (dropWhile isDash (rev (dropWhile isDash
                   (squashNonAlnum False (toLowerCase text))))))
      in if slug = [] then ''email-alert'' else slug)"

text \<open>
  \<open>split(/\r?\n/)\<close>: the text is cut at every line feed, and a carriage return right
  before the line feed belongs to the separator. \<open>cur\<close> holds the current line reversed.
\<close>

fun splitLines :: "string \<Rightarrow> string \<Rightarrow> string list" where
  "splitLines cur [] = [rev cur]"
| "splitLines cur (c # cs) =
     (if c = CHR 0x0A
      then rev (case cur of [] \<Rightarrow> [] | d # ds \<Rightarrow> if d = CHR 0x0D then ds else d # ds)
             # splitLines [] cs
      else splitLines (c # cur) cs)"

text \<open>\<open>firstNonEmptyLine\<close> (lines 80-86).\<close>

definition firstNonEmptyLine :: "string \<Rightarrow> string" where
  "firstNonEmptyLine text =
     (case find (\<lambda>trimmed. trimmed \<noteq> []) (map trim (splitLines [] text)) of
        Some trimmed \<Rightarrow> trimmed
      | None \<Rightarrow> [])"

text \<open>\<open>summarizeBody\<close> (lines 88-92).\<close>

definition summarizeBody :: "string \<Rightarrow> string" where
  "summarizeBody text =
     (let oneLine = trim (collapseSpaces False text)
      in if oneLine = [] then ''Email alert received; parser placeholder used.''
         else take 300 oneLine)"

text \<open>\<open>inferSeverityAndStatus\<close> (lines 94-112).\<close>

record severity_info =
  si_severity :: string
  si_status :: string
  si_updateState :: string

definition inferSeverityAndStatus :: "string \<Rightarrow> string \<Rightarrow> severity_info" where
  "inferSeverityAndStatus subj body =
     (let haystack = toLowerCase (subj @ [CHR 0x0A] @ body);
          has = (\<lambda>ps. hasPhrase ps False haystack);
          resolved = has [''resolved'', ''restored'', ''normal service'', ''back to normal'',
                          ''cleared'', ''clear'']
      in if resolved
         then \<lparr>si_severity = ''minor'', si_status = ''resolved'', si_updateState = ''operational''\<rparr>
         else if has [''no service'', ''service suspended'', ''all trains stopped'', ''shutdown'']
         then \<lparr>si_severity = ''critical'', si_status = ''investigating'', si_updateState = ''critical''\<rparr>
         else if has [''major disruption'', ''disabled train'', ''signal issue'', ''police activity'',
                      ''single-track'']
         then \<lparr>si_severity = ''major'', si_status = ''investigating'', si_updateState = ''major''\<rparr>
         else if has [''delay'', ''delays'', ''late'', ''reduced speed'', ''inspection'', ''holding'']
         then \<lparr>si_severity = ''minor'', si_status = ''investigating'', si_updateState = ''degraded''\<rparr>
         else \<lparr>si_severity = ''minor'', si_status = ''investigating'', si_updateState = ''degraded''\<rparr>)"

text \<open>\<open>inferAffectedSegments\<close> (lines 114-125).\<close>

definition inferAffectedSegments :: "string \<Rightarrow> string \<Rightarrow> string list" where
  "inferAffectedSegments subj body =
     (let haystack = toLowerCase (subj @ [CHR 0x0A] @ body);
          s1 = (if includes_str haystack ''northbound'' then [''Northbound''] else []);
          s2 = (if includes_str haystack ''southbound'' then s1 @ [''Southbound''] else s1);
          s3 = (if includes_str haystack ''both directions''
                then (let a = (if ''Northbound'' \<in> set s2 then s2 else s2 @ [''Northbound''])
                      in if ''Southbound'' \<in> set a then a else a @ [''Southbound''])
                else s2)
      in if s3 = [] then [''System-wide''] else s3)"

subsection \<open>Events\<close>

text \<open>
  A time is the time value (milliseconds since the epoch) of a valid \<open>Date\<close>; the ISO
  string the script stores is its \<open>toISOString()\<close>, and \<open>new Date(iso)\<close> reads the time
  value back. A field that may be absent is an option; an absent and an empty string
  are both falsy.
\<close>

record raw_message =
  msg_messageId :: "string option"
  msg_subject :: "string option"
  msg_bodyText :: "string option"
  msg_receivedAt :: "int option"

record event =
  messageId :: "string option"
  receivedAt :: int
  subject :: string
  bodyText :: string
  subjectKey :: string
  title :: string
  summary :: string
  severity :: string
  incidentStatus :: string
  updateState :: string
  affectedSegments :: "string list"
  updateMessage :: string

text \<open>\<open>x || d\<close> for a string that may be absent, and for two strings.\<close>

definition orDefault :: "string option \<Rightarrow> string \<Rightarrow> string" where
  "orDefault x d = (case x of None \<Rightarrow> d | Some s \<Rightarrow> if s = [] then d else s)"

definition orElse :: "string \<Rightarrow> string \<Rightarrow> string" where
  "orElse a b = (if a = [] then b else a)"

definition capitalizeFirst :: "string \<Rightarrow> string" where
  "capitalizeFirst s = (case s of [] \<Rightarrow> [] | c # cs \<Rightarrow> toUpperCase_char c # cs)"

text \<open>
  \<open>buildParsedEvent\<close> (lines 127-151). \<open>now\<close> is the clock reading that
  \<open>new Date().toISOString()\<close> would take.
\<close>

definition buildParsedEvent :: "int \<Rightarrow> raw_message \<Rightarrow> event" where
  "buildParsedEvent now msg =
     (let subj = orDefault (msg_subject msg) ''(No subject)'';
          body = orDefault (msg_bodyText msg) [];
          received = (case msg_receivedAt msg of None \<Rightarrow> now | Some t \<Rightarrow> t);
          normalizedSubject = normalizeSubject subj;
          key = slugify (orElse normalizedSubject subj);
          headline = orElse normalizedSubject
                       (orElse (firstNonEmptyLine body) ''Caltrain service alert'');
          severityInfo = inferSeverityAndStatus subj body
      in \<lparr>messageId = msg_messageId msg,
          receivedAt = received,
          subject = subj,
          bodyText = body,
          subjectKey = key,
          title = capitalizeFirst headline,
          summary = summarizeBody body,
          severity = si_severity severityInfo,
          incidentStatus = si_status severityInfo,
          updateState = si_updateState severityInfo,
          affectedSegments = inferAffectedSegments subj body,
          updateMessage = orElse (firstNonEmptyLine body) subj\<rparr>)"

subsection \<open>Dates\<close>

text \<open>
  The calendar date of a time value, as \<open>YearFromTime\<close>, \<open>MonthFromTime\<close> and
  \<open>DateFromTime\<close> of ECMAScript give it (proleptic Gregorian calendar, UTC): the
  result is (year, month 1..12, day 1..31).
\<close>

definition MS_PER_DAY :: int where
  "MS_PER_DAY = 86400000"

definition civilFromDays :: "int \<Rightarrow> int \<times> int \<times> int" where
  "civilFromDays days =
     (let z = days + 719468;
          era = z div 146097;
          doe = z - era * 146097;
          yoe = (doe - doe div 1460 + doe div 36524 - doe div 146096) div 365;
          y = yoe + era * 400;
          doy = doe - (365 * yoe + yoe div 4 - yoe div 100);
          mp = (5 * doy + 2) div 153;
          d = doy - (153 * mp + 2) div 5 + 1;
          m = (if mp < 10 then mp + 3 else mp - 9)
      in (if m \<le> 2 then y + 1 else y, m, d))"

definition dateParts :: "int \<Rightarrow> int \<times> int \<times> int" where
  "dateParts t = civilFromDays (t div MS_PER_DAY)"

text \<open>\<open>String(n)\<close> for a natural number and for an integer.\<close>

definition digitChar :: "nat \<Rightarrow> char" where
  "digitChar d = char_of (48 + d)"

fun decimal :: "nat \<Rightarrow> string" where
  "decimal n = (if n < 10 then [digitChar n] else decimal (n div 10) @ [digitChar (n mod 10)])"

declare decimal.simps [simp del]

text \<open>Reading the digits back: \<open>decimal\<close> is injective.\<close>

definition undecimal :: "string \<Rightarrow> nat" where
  "undecimal s = foldl (\<lambda>a c. 10 * a + (of_char c - 48)) 0 s"

lemma undecimal_decimal: "undecimal (decimal n) = n"
proof (induction n rule: decimal.induct)
  case (1 n)
  show ?case
  proof (cases "n < 10")
    case True
    then show ?thesis
      by (subst decimal.simps) (simp add: undecimal_def digitChar_def)
  next
    case False
    have d: "(of_char (digitChar (n mod 10)) :: nat) = 48 + n mod 10"
      by (simp add: digitChar_def)
    from False 1 have "undecimal (decimal (n div 10)) = n div 10" by simp
    then show ?thesis
      using False by (subst decimal.simps) (simp add: undecimal_def d)
  qed
qed

lemma inj_decimal: "inj decimal"
  by (rule inj_on_inverseI [of _ undecimal]) (rule undecimal_decimal)

definition decimalInt :: "int \<Rightarrow> string" where
  "decimalInt i = (if i < 0 then CHR ''-'' # decimal (nat (- i)) else decimal (nat i))"

definition padStart :: "nat \<Rightarrow> string \<Rightarrow> string" where
  "padStart n s = replicate (n - length s) (CHR ''0'') @ s"

text \<open>
  The date part of \<open>toISOString()\<close>: four digits for the years 0 to 9999, a sign and
  six digits otherwise. \<open>toISOString().slice(0, n)\<close> for \<open>n \<le> 10\<close> is a prefix of it.
\<close>

definition isoDate :: "int \<Rightarrow> string" where
  "isoDate t =
     (case dateParts t of (y, m, d) \<Rightarrow>
        (if 0 \<le> y \<and> y \<le> 9999 then padStart 4 (decimal (nat y))
         else (if y < 0 then CHR ''-'' else CHR ''+'') # padStart 6 (decimal (nat \<bar>y\<bar>)))
        @ ''-'' @ padStart 2 (decimal (nat m)) @ ''-'' @ padStart 2 (decimal (nat d)))"

text \<open>
  \<open>getShardRepoPathForDate\<close> (lines 169-173). \<open>getFullYear\<close> and \<open>getMonth\<close> read the
  local time of the process, taken here to be UTC. \<open>getShardPathForDate\<close> (lines
  163-167) names the same file under the working directory.
\<close>

definition getShardRepoPathForDate :: "int \<Rightarrow> string" where
  "getShardRepoPathForDate date =
     (case dateParts date of (year, month, _) \<Rightarrow>
        ''data/incidents/'' @ decimalInt year @ ''-'' @ padStart 2 (decimal (nat month))
          @ ''/incidents.json'')"

subsection \<open>Incidents and shards\<close>

record incident_update =
  timestamp :: int
  state :: string
  message :: string
  source_message_id :: "string option"

record incident =
  inc_id :: string
  inc_title :: string
  inc_severity :: string
  status :: string
  started_at :: int
  resolved_at :: "int option"
  affected_segments :: "string list"
  inc_summary :: string
  updates :: "incident_update list"
  ingestion_key :: string

record shard =
  period :: string
  items :: "incident list"

text \<open>
  \<open>createIncidentId\<close> (lines 184-191). The \<open>while\<close> loop looks for the first counter
  from 2 on whose id is free.
\<close>

function freeCounter :: "string \<Rightarrow> string list \<Rightarrow> nat \<Rightarrow> nat" where
  "freeCounter base existingIds counter =
     (if base @ ''-'' @ decimal counter \<in> set existingIds
      then freeCounter base existingIds (counter + 1)
      else counter)"
  by pat_completeness auto

lemma finite_taken: "finite {c. base @ ''-'' @ decimal c \<in> set ids}"
proof -
  have "inj (\<lambda>c. base @ ''-'' @ decimal c)"
    using inj_decimal by (auto simp: inj_on_def)
  then have "finite ((\<lambda>c. base @ ''-'' @ decimal c) -` set ids)"
    by (intro finite_vimageI) simp_all
  then show ?thesis by (simp add: vimage_def)
qed

termination freeCounter
proof (relation "measure (\<lambda>(base, ids, counter).
                   card {c. counter \<le> c \<and> base @ ''-'' @ decimal c \<in> set ids})")
  show "wf (measure (\<lambda>(base, ids, counter).
              card {c. counter \<le> c \<and> base @ ''-'' @ decimal c \<in> set ids}))"
    by simp
next
  fix base :: string and existingIds :: "string list" and counter :: nat
  assume h: "base @ ''-'' @ decimal counter \<in> set existingIds"
  let ?A = "{c. counter + 1 \<le> c \<and> base @ ''-'' @ decimal c \<in> set existingIds}"
  let ?B = "{c. counter \<le> c \<and> base @ ''-'' @ decimal c \<in> set existingIds}"
  have fin: "finite ?B"
    using finite_taken [of base existingIds] by (rule rev_finite_subset) auto
  have "counter \<in> ?B" "counter \<notin> ?A" using h by auto
  moreover have "?A \<subseteq> ?B" by auto
  ultimately have "?A \<subset> ?B" by blast
  with fin have "card ?A < card ?B" by (rule psubset_card_mono)
  then show "((base, existingIds, counter + 1), (base, existingIds, counter))
       \<in> measure (\<lambda>(base, ids, counter).
                    card {c. counter \<le> c \<and> base @ ''-'' @ decimal c \<in> set ids})"
    by simp
qed

declare freeCounter.simps [simp del]

definition createIncidentId :: "int \<Rightarrow> string \<Rightarrow> string list \<Rightarrow> string" where
  "createIncidentId date key existingIds =
     (let day = take 10 (isoDate date);
          base = ''inc-'' @ day @ ''-'' @ key
      in if base \<notin> set existingIds then base
         else base @ ''-'' @ decimal (freeCounter base existingIds 2))"

text \<open>
  \<open>severityRank\<close> (lines 193-195). The table is an object literal, so a label that
  names a property inherited from \<open>Object.prototype\<close> reads that property (a function or
  an object, never a number) and \<open>?? 0\<close> does not apply; every comparison with it is
  false. \<open>None\<close> stands for such a value.
\<close>

definition inheritedProperties :: "string list" where
  "inheritedProperties =
     [''constructor'', ''__defineGetter__'', ''__defineSetter__'', ''hasOwnProperty'',
      ''__lookupGetter__'', ''__lookupSetter__'', ''isPrototypeOf'', ''propertyIsEnumerable'',
      ''toString'', ''valueOf'', ''__proto__'', ''toLocaleString'']"

definition severityRank :: "string \<Rightarrow> nat option" where
  "severityRank s =
     (if s = ''operational'' then Some 0
      else if s = ''minor'' then Some 1
      else if s = ''degraded'' then Some 1
      else if s = ''major'' then Some 2
      else if s = ''critical'' then Some 3
      else if s \<in> set inheritedProperties then None
      else Some 0)"

text \<open>\<open>a > b\<close> on two such values.\<close>

definition rankGreater :: "nat option \<Rightarrow> nat option \<Rightarrow> bool" where
  "rankGreater a b = (case (a, b) of (Some x, Some y) \<Rightarrow> x > y | _ \<Rightarrow> False)"

text \<open>
  \<open>findMatchingIncident\<close> (lines 197-213). The result is the position in
  \<open>shard.items\<close> of the incident object that the function returns, so that the caller's
  mutation of that object can be written as an update at that position. The sort is on
  a copy; \<open>items\<close> keeps its order. Both branches of the \<open>if\<close> are the same expression.
\<close>

definition matchesEvent :: "event \<Rightarrow> incident \<Rightarrow> bool" where
  "matchesEvent ev incident =
     (ingestion_key incident = subjectKey ev
      \<or> normalizeSubject (inc_title incident) = normalizeSubject (title ev))"

definition candidatesFor :: "shard \<Rightarrow> event \<Rightarrow> (nat \<times> incident) list" where
  "candidatesFor sh ev =
     sort_key (\<lambda>(n, i). - started_at i)
       (filter (\<lambda>(n, i). matchesEvent ev i) (enumerate 0 (items sh)))"

definition firstOpenOrHead :: "(nat \<times> incident) list \<Rightarrow> nat" where
  "firstOpenOrHead candidates =
     (case find (\<lambda>(n, i). status i \<noteq> ''resolved'') candidates of
        Some (n, i) \<Rightarrow> n
      | None \<Rightarrow> fst (hd candidates))"

definition findMatchingIncident :: "shard \<Rightarrow> event \<Rightarrow> nat option" where
  "findMatchingIncident sh ev =
     (let candidates = candidatesFor sh ev
      in if candidates = [] then None
         else if incidentStatus ev = ''resolved'' then Some (firstOpenOrHead candidates)
         else Some (firstOpenOrHead candidates))"

text \<open>
  \<open>upsertIncidentInShard\<close> (lines 215-270), in three parts: the new incident of the
  \<open>if\<close> branch, the field merge of the \<open>else\<close> branch, and the update history of lines
  257-267. \<open>Array.from(new Set(xs))\<close> keeps the first occurrence of every element.
\<close>

definition uniqueFirst :: "'a list \<Rightarrow> 'a list" where
  "uniqueFirst xs = rev (remdups (rev xs))"

definition newIncident :: "string list \<Rightarrow> event \<Rightarrow> incident" where
  "newIncident existingIds ev =
     \<lparr>inc_id = createIncidentId (receivedAt ev) (subjectKey ev) existingIds,
      inc_title = title ev,
      inc_severity = severity ev,
      status = incidentStatus ev,
      started_at = receivedAt ev,
      resolved_at = (if incidentStatus ev = ''resolved'' then Some (receivedAt ev) else None),
      affected_segments = affectedSegments ev,
      inc_summary = summary ev,
      updates = [],
      ingestion_key = subjectKey ev\<rparr>"

definition mergeEvent :: "incident \<Rightarrow> event \<Rightarrow> incident" where
  "mergeEvent incident ev =
     (let i1 = incident\<lparr>inc_title := orElse (inc_title incident) (title ev)\<rparr>;
          i2 = i1\<lparr>affected_segments := uniqueFirst (affected_segments i1 @ affectedSegments ev)\<rparr>;
          i3 = i2\<lparr>inc_summary := orElse (summary ev) (inc_summary i2)\<rparr>;
          i4 = (if rankGreater (severityRank (severity ev)) (severityRank (inc_severity i3))
                then i3\<lparr>inc_severity := severity ev\<rparr> else i3)
      in if incidentStatus ev = ''resolved''
         then i4\<lparr>status := ''resolved'', resolved_at := Some (receivedAt ev)\<rparr>
         else if status i4 = ''resolved''
         then i4\<lparr>status := ''investigating'', resolved_at := None\<rparr>
         else i4\<lparr>status := orElse (incidentStatus ev) (status i4)\<rparr>)"

definition updateOf :: "event \<Rightarrow> incident_update" where
  "updateOf ev =
     \<lparr>timestamp = receivedAt ev,
      state = updateState ev,
      message = updateMessage ev,
      source_message_id = messageId ev\<rparr>"

definition addUpdate :: "incident \<Rightarrow> event \<Rightarrow> incident" where
  "addUpdate incident ev =
     (let alreadyHasMessage = list_ex (\<lambda>u. source_message_id u = messageId ev) (updates incident)
      in if \<not> alreadyHasMessage
         then incident\<lparr>updates := sort_key timestamp (updates incident @ [updateOf ev])\<rparr>
         else incident)"

definition upsertIncidentInShard :: "shard \<Rightarrow> event \<Rightarrow> shard \<times> incident" where
  "upsertIncidentInShard sh ev =
     (let existingIds = map inc_id (items sh)
      in case findMatchingIncident sh ev of
           None \<Rightarrow>
             (let incident = addUpdate (newIncident existingIds ev) ev
              in (sh\<lparr>items := items sh @ [incident]\<rparr>, incident))
         | Some n \<Rightarrow>
             (let incident = addUpdate (mergeEvent (items sh ! n) ev) ev
              in (sh\<lparr>items := (items sh)[n := incident]\<rparr>, incident)))"

subsection \<open>The repository of shard files\<close>

text \<open>
  The files the script reads and writes: the index (\<open>data/incidents/index.json\<close>) and
  the monthly shard files, by repository path. A file that is missing reads as the
  fallback value of \<open>readJson\<close>.
\<close>

record repo =
  index_files :: "string list"
  shard_files :: "string \<rightharpoonup> shard"

definition emptyRepo :: repo where
  "emptyRepo = \<lparr>index_files = [], shard_files = Map.empty\<rparr>"

text \<open>\<open>saveIncidentsIndex\<close> (lines 157-161) and \<open>loadShard\<close>, \<open>saveShard\<close> (lines 175-182).\<close>

definition saveIncidentsIndex :: "string list \<Rightarrow> string list" where
  "saveIncidentsIndex files = rev (sort (uniqueFirst files))"

definition loadShard :: "repo \<Rightarrow> string \<Rightarrow> string \<Rightarrow> shard" where
  "loadShard r path per =
     (case shard_files r path of None \<Rightarrow> \<lparr>period = per, items = []\<rparr> | Some sh \<Rightarrow> sh)"

definition saveShard :: "shard \<Rightarrow> shard" where
  "saveShard sh = sh\<lparr>items := sort_key (\<lambda>i. - started_at i) (items sh)\<rparr>"

text \<open>\<open>applyEventToRepo\<close> (lines 320-337): the repository after the call, and the incident.\<close>

definition applyEventToRepo :: "repo \<Rightarrow> event \<Rightarrow> repo \<times> incident" where
  "applyEventToRepo r ev =
     (let per = take 7 (isoDate (receivedAt ev));
          shardRepoPath = getShardRepoPathForDate (receivedAt ev);
          files = (if shardRepoPath \<notin> set (index_files r)
                   then saveIncidentsIndex (index_files r @ [shardRepoPath])
                   else index_files r);
          sh = (loadShard r shardRepoPath per)\<lparr>period := per\<rparr>
      in case upsertIncidentInShard sh ev of
           (sh', incident) \<Rightarrow>
             (\<lparr>index_files = files,
               shard_files = (shard_files r)(shardRepoPath \<mapsto> saveShard sh')\<rparr>, incident))"

text \<open>
  The ingestion loop of \<open>main\<close> applies the events of a batch one at a time; each sees
  the files the previous one left.
\<close>

definition applyEvents :: "repo \<Rightarrow> event list \<Rightarrow> repo" where
  "applyEvents r evs = fold (\<lambda>ev r'. fst (applyEventToRepo r' ev)) evs r"

text \<open>
  \<open>collectAllIncidents\<close> (lines 272-281): the incidents of every shard the index
  lists, newest first.
\<close>

definition collectAllIncidents :: "repo \<Rightarrow> incident list" where
  "collectAllIncidents r =
     sort_key (\<lambda>i. - started_at i)
       (concat (map (\<lambda>repoPath. case shard_files r repoPath of None \<Rightarrow> [] | Some sh \<Rightarrow> items sh)
                    (index_files r)))"

text \<open>The invariant of the store: within a shard no two incidents share a match key.\<close>

definition keysDistinct :: "repo \<Rightarrow> bool" where
  "keysDistinct r =
     (\<forall>p sh. shard_files r p = Some sh \<longrightarrow> distinct (map ingestion_key (items sh)))"

subsection \<open>Sample data\<close>

text \<open>
  The incident of the scenario in section 8 of the specification after its first two
  events (opened at 08:00 UTC on 2024-03-01, resolved at 09:00), and events for the same
  subject with a given message id, time, severity and status.
\<close>

definition sample_incident :: incident where
  "sample_incident =
     \<lparr>inc_id = ''inc-2024-03-01-signal-problem'',
      inc_title = ''Signal problem'',
      inc_severity = ''major'',
      status = ''resolved'',
      started_at = 1709280000000,
      resolved_at = Some 1709283600000,
      affected_segments = [''System-wide''],
      inc_summary = ''Service has been restored.'',
      updates = [\<lparr>timestamp = 1709280000000, state = ''major'',
                  message = ''Trains are holding due to a signal issue.'',
                  source_message_id = Some ''m1''\<rparr>,
                 \<lparr>timestamp = 1709283600000, state = ''operational'',
                  message = ''Service has been restored.'', source_message_id = Some ''m2''\<rparr>],
      ingestion_key = ''signal-problem''\<rparr>"

definition sample_event :: "string \<Rightarrow> int \<Rightarrow> string \<Rightarrow> string \<Rightarrow> event" where
  "sample_event mid t sev st =
     \<lparr>messageId = Some mid,
      receivedAt = t,
      subject = ''Signal problem'',
      bodyText = ''Update.'',
      subjectKey = ''signal-problem'',
      title = ''Signal problem'',
      summary = ''Update.'',
      severity = sev,
      incidentStatus = st,
      updateState = (if st = ''resolved'' then ''operational'' else ''degraded''),
      affectedSegments = [''System-wide''],
      updateMessage = ''Update.''\<rparr>"

text \<open>
  The event parsed from a message with the given id, subject, body and time, and the
  two incidents the script stores for the subjects \<open>Foo bar\<close> (08:00) and
  \<open>service  update Foo-bar\<close> (08:30) on 2024-03-01.
\<close>

definition parsed :: "string \<Rightarrow> string \<Rightarrow> string \<Rightarrow> int \<Rightarrow> event" where
  "parsed mid subj body t =
     buildParsedEvent 0 \<lparr>msg_messageId = Some mid, msg_subject = Some subj,
                         msg_bodyText = Some body, msg_receivedAt = Some t\<rparr>"

definition incident_a :: incident where
  "incident_a =
     \<lparr>inc_id = ''inc-2024-03-01-foo-bar'', inc_title = ''Foo bar'', inc_severity = ''minor'',
      status = ''investigating'', started_at = 1709280000000, resolved_at = None,
      affected_segments = [''System-wide''], inc_summary = ''Trains are late.'',
      updates = [\<lparr>timestamp = 1709280000000, state = ''degraded'',
                  message = ''Trains are late.'', source_message_id = Some ''a1''\<rparr>],
      ingestion_key = ''foo-bar''\<rparr>"

definition incident_b :: incident where
  "incident_b =
     \<lparr>inc_id = ''inc-2024-03-01-service-update-foo-bar'', inc_title = ''Service update Foo-bar'',
      inc_severity = ''minor'', status = ''investigating'', started_at = 1709281800000,
      resolved_at = None, affected_segments = [''System-wide''],
      inc_summary = ''Trains are late.'',
      updates = [\<lparr>timestamp = 1709281800000, state = ''degraded'',
                  message = ''Trains are late.'', source_message_id = Some ''a2''\<rparr>],
      ingestion_key = ''service-update-foo-bar''\<rparr>"

section \<open>Presentation path (app.js): severity labels and uptime\<close>

subsection \<open>JavaScript values\<close>

text \<open>
  The values a field read from a JSON document (or a missing field) can hold when it
  reaches \<open>normalizeSeverity\<close>. Numbers are the finite reals plus \<open>NaN\<close> and the
  infinities; an array counts as an object.
\<close>

datatype js_value =
    JUndefined
  | JNull
  | JBoolean bool
  | JNumber real
  | JNaN
  | JInfinity bool
  | JString string
  | JObject

text \<open>ToBoolean: \<open>undefined\<close>, \<open>null\<close>, \<open>false\<close>, \<open>0\<close>, \<open>NaN\<close> and the empty string are falsy.\<close>

fun truthy :: "js_value \<Rightarrow> bool" where
  "truthy JUndefined = False"
| "truthy JNull = False"
| "truthy (JBoolean b) = b"
| "truthy (JNumber x) = (x \<noteq> 0)"
| "truthy JNaN = False"
| "truthy (JInfinity _) = True"
| "truthy (JString s) = (s \<noteq> [])"
| "truthy JObject = True"

text \<open>
  \<open>normalizeSeverity\<close> (app.js lines 146-155, the same text in the earlier revision):
  each \<open>===\<close> against a string literal holds only for that very string.
\<close>

definition normalizeSeverity :: "js_value \<Rightarrow> string" where
  "normalizeSeverity v =
     (if \<not> truthy v then ''operational''
      else if v = JString ''degraded'' then ''degraded''
      else if v = JString ''minor'' then ''minor''
      else if v = JString ''major'' then ''major''
      else if v = JString ''critical'' then ''critical''
      else if v = JString ''identified'' \<or> v = JString ''investigating''
              \<or> v = JString ''monitoring'' then ''degraded''
      else if v = JString ''resolved'' then ''operational''
      else ''degraded'')"

subsection \<open>Uptime bands\<close>

text \<open>
  \<open>uptimeBandForPercent\<close> (app.js lines 116-121). The argument is the number that
  \<open>uptimeForWindow\<close> returned, read here as the real it denotes; 98 and 95 are exact.
\<close>

definition uptimeBandForPercent :: "real \<Rightarrow> string" where
  "uptimeBandForPercent n =
     (if n \<ge> 98 then ''operational''
      else if n \<ge> 95 then ''degraded''
      else ''major'')"

text \<open>
  \<open>severityForUptimePercent\<close>, the banding of the earlier revision of app.js (it
  coloured the monthly chart there).
\<close>

definition severityForUptimePercent :: "real \<Rightarrow> string" where
  "severityForUptimePercent n =
     (if n \<ge> 99.95 then ''operational''
      else if n \<ge> 99.0 then ''degraded''
      else if n \<ge> 97.0 then ''major''
      else ''critical'')"

subsection \<open>Segments, clipping and minute buckets\<close>

text \<open>
  A segment holds two time values in milliseconds since the epoch (what \<open>getTime()\<close>
  returns for a valid \<open>Date\<close>) and a severity label.
\<close>

record segment =
  seg_start :: int
  seg_end :: int
  seg_severity :: string

text \<open>
  \<open>clippedSegments\<close> (app.js lines 204-214): map, drop the \<open>null\<close>s, sort by start.
  \<open>Array.prototype.sort\<close> is stable, as \<open>sort_key\<close> is.
\<close>

definition clipSegment :: "int \<Rightarrow> int \<Rightarrow> segment \<Rightarrow> segment option" where
  "clipSegment windowStart windowEnd s =
     (let start = max (seg_start s) windowStart;
          end' = min (seg_end s) windowEnd
      in if end' \<le> start then None
         else Some \<lparr>seg_start = start, seg_end = end', seg_severity = seg_severity s\<rparr>)"

definition clippedSegments :: "segment list \<Rightarrow> int \<Rightarrow> int \<Rightarrow> segment list" where
  "clippedSegments segments windowStart windowEnd =
     sort_key seg_start (List.map_filter (clipSegment windowStart windowEnd) segments)"

text \<open>\<open>Math.floor(x / 60_000)\<close> and \<open>Math.ceil(x / 60_000)\<close> on an integral time value.\<close>

definition floorMinute :: "int \<Rightarrow> int" where
  "floorMinute x = x div 60000"

definition ceilMinute :: "int \<Rightarrow> int" where
  "ceilMinute x = - ((- x) div 60000)"

text \<open>A time value that falls on a minute boundary.\<close>

definition aligned :: "int \<Rightarrow> bool" where
  "aligned t = (t mod 60000 = 0)"

text \<open>
  \<open>mergedDowntimeBuckets\<close> (app.js lines 216-230). The \<open>Set\<close> of occupied buckets is
  a list without repetitions; \<open>List.insert\<close> is \<open>Set.prototype.add\<close>.
\<close>

definition addBuckets :: "segment \<Rightarrow> int list \<Rightarrow> int list" where
  "addBuckets s occupiedBuckets =
     fold List.insert [floorMinute (seg_start s) .. ceilMinute (seg_end s) - 1] occupiedBuckets"

definition mergedDowntimeBuckets :: "segment list \<Rightarrow> int \<Rightarrow> int \<Rightarrow> nat" where
  "mergedDowntimeBuckets segments windowStart windowEnd =
     (let clipped = clippedSegments segments windowStart windowEnd
      in if clipped = [] then 0
         else length (fold addBuckets clipped []))"

text \<open>
  \<open>uptimeForWindow\<close> (app.js lines 232-238). The quotient is taken in the reals; the
  JavaScript division rounds it to the nearest double.
\<close>

definition uptimeForWindow :: "segment list \<Rightarrow> int \<Rightarrow> int \<Rightarrow> real" where
  "uptimeForWindow segments windowStart windowEnd =
     (let denominator = ceilMinute windowEnd - floorMinute windowStart
      in if denominator \<le> 0 then 100
         else let downtime = mergedDowntimeBuckets segments windowStart windowEnd
              in max 0 (min 100
                   ((real_of_int (denominator - int downtime) / real_of_int denominator) * 100)))"

definition DAY_MS :: int where
  "DAY_MS = 24 * (60 * 60 * 1000)"

definition addDays :: "int \<Rightarrow> int \<Rightarrow> int" where
  "addDays date days = date + days * DAY_MS"

text \<open>
  One entry of \<open>recent_days\<close> in \<open>computeUptimeFromIncidents\<close> (app.js lines 285-295),
  for the day that starts at \<open>dayStart\<close>; the \<open>date\<close> label is left out.
\<close>

record day_entry =
  uptime_percent :: real
  uptime_band :: string

definition recentDay :: "segment list \<Rightarrow> int \<Rightarrow> day_entry" where
  "recentDay segments dayStart =
     (let dayEnd = addDays dayStart 1;
          dayUptime = uptimeForWindow segments dayStart dayEnd
      in \<lparr>uptime_percent = dayUptime, uptime_band = uptimeBandForPercent dayUptime\<rparr>)"

definition recent_days :: "segment list \<Rightarrow> int \<Rightarrow> day_entry list" where
  "recent_days segments completedDayBoundary =
     map (\<lambda>offset. recentDay segments (addDays completedDayBoundary offset)) [-29 .. 0]"

section \<open>Properties of the reconciler\<close>

subsection \<open>Evaluation on concrete inputs\<close>

lemma decimal_digit: "n < 10 \<Longrightarrow> decimal n = [digitChar n]"
  by (subst decimal.simps) simp

lemma decimal_step: "10 \<le> n \<Longrightarrow> decimal n = decimal (n div 10) @ [digitChar (n mod 10)]"
  by (subst decimal.simps) simp

lemmas string_eval =
  isSpace_def isWord_def toLowerCase_def toLowerCase_char_def toUpperCase_char_def trim_def
  startsWith_def startsWithCI_def phraseAt_def afterColon_def stripReplyPrefix_def
  isLowerAlnum_def isDash_def orDefault_def orElse_def capitalizeFirst_def Let_def
  char_of_eq_iff

lemma march_date: "isoDate 1709280000000 = ''2024-03-01''"
  by code_simp

lemma march_path:
  "getShardRepoPathForDate 1709280000000 = ''data/incidents/2024-03/incidents.json''"
  by code_simp

lemma april_date: "isoDate 1713168000000 = ''2024-04-15''"
  by code_simp

lemma april_path:
  "getShardRepoPathForDate 1713168000000 = ''data/incidents/2024-04/incidents.json''"
  by code_simp

lemma sample_match:
  "ingestion_key i = ''signal-problem'' \<Longrightarrow>
     findMatchingIncident \<lparr>period = p, items = [i]\<rparr> (sample_event mid t sev st) = Some 0"
  by (simp add: findMatchingIncident_def candidatesFor_def matchesEvent_def firstOpenOrHead_def
        sample_event_def)

lemma sample_key: "ingestion_key sample_incident = ''signal-problem''"
  by (simp add: sample_incident_def)

subsection \<open>One call of the reconciler\<close>

lemma find_in_set: "find P xs = Some x \<Longrightarrow> x \<in> set xs \<and> P x"
  by (induction xs) (auto split: if_splits)

lemma findMatchingIncident_bound:
  "findMatchingIncident sh ev = Some n \<Longrightarrow> n < length (items sh)"
proof -
  assume h: "findMatchingIncident sh ev = Some n"
  let ?c = "candidatesFor sh ev"
  from h have ne: "?c \<noteq> []" and n: "n = firstOpenOrHead ?c"
    by (auto simp: findMatchingIncident_def Let_def split: if_splits)
  have sub: "set ?c \<subseteq> set (enumerate 0 (items sh))"
    by (auto simp: candidatesFor_def)
  have "\<exists>i. (n, i) \<in> set ?c"
  proof (cases "find (\<lambda>(n, i). status i \<noteq> ''resolved'') ?c")
    case None
    then have "n = fst (hd ?c)" using n by (simp add: firstOpenOrHead_def)
    moreover have "hd ?c \<in> set ?c" using ne by simp
    ultimately show ?thesis by (metis prod.collapse)
  next
    case (Some p)
    then have "p \<in> set ?c" by (simp add: find_in_set)
    moreover have "n = fst p" using n Some by (simp add: firstOpenOrHead_def split: prod.splits)
    ultimately show ?thesis by (metis prod.collapse)
  qed
  then obtain i where "(n, i) \<in> set (enumerate 0 (items sh))" using sub by blast
  then show ?thesis by (simp add: in_set_enumerate_eq)
qed

lemma upsert_matched:
  assumes "findMatchingIncident sh ev = Some n"
  shows "upsertIncidentInShard sh ev =
           (sh\<lparr>items := (items sh)[n := addUpdate (mergeEvent (items sh ! n) ev) ev]\<rparr>,
            addUpdate (mergeEvent (items sh ! n) ev) ev)"
  using assms by (simp add: upsertIncidentInShard_def Let_def)

lemma upsert_created:
  assumes "findMatchingIncident sh ev = None"
  shows "upsertIncidentInShard sh ev =
           (sh\<lparr>items := items sh @ [addUpdate (newIncident (map inc_id (items sh)) ev) ev]\<rparr>,
            addUpdate (newIncident (map inc_id (items sh)) ev) ev)"
  using assms by (simp add: upsertIncidentInShard_def Let_def)

lemma addUpdate_fields:
  "inc_id (addUpdate i ev) = inc_id i"
  "inc_title (addUpdate i ev) = inc_title i"
  "inc_severity (addUpdate i ev) = inc_severity i"
  "status (addUpdate i ev) = status i"
  "started_at (addUpdate i ev) = started_at i"
  "resolved_at (addUpdate i ev) = resolved_at i"
  "affected_segments (addUpdate i ev) = affected_segments i"
  "inc_summary (addUpdate i ev) = inc_summary i"
  "ingestion_key (addUpdate i ev) = ingestion_key i"
  by (simp_all add: addUpdate_def Let_def)

lemma mergeEvent_fields:
  "inc_id (mergeEvent i ev) = inc_id i"
  "started_at (mergeEvent i ev) = started_at i"
  "ingestion_key (mergeEvent i ev) = ingestion_key i"
  "updates (mergeEvent i ev) = updates i"
  "inc_title (mergeEvent i ev) = orElse (inc_title i) (title ev)"
  "inc_summary (mergeEvent i ev) = orElse (summary ev) (inc_summary i)"
  "affected_segments (mergeEvent i ev) = uniqueFirst (affected_segments i @ affectedSegments ev)"
  by (simp_all add: mergeEvent_def Let_def)

lemma mergeEvent_severity:
  "inc_severity (mergeEvent i ev) =
     (if rankGreater (severityRank (severity ev)) (severityRank (inc_severity i))
      then severity ev else inc_severity i)"
  by (simp add: mergeEvent_def Let_def)

lemma mergeEvent_status:
  "status (mergeEvent i ev) =
     (if incidentStatus ev = ''resolved'' then ''resolved''
      else if status i = ''resolved'' then ''investigating''
      else orElse (incidentStatus ev) (status i))"
  "resolved_at (mergeEvent i ev) =
     (if incidentStatus ev = ''resolved'' then Some (receivedAt ev)
      else if status i = ''resolved'' then None
      else resolved_at i)"
  by (simp_all add: mergeEvent_def Let_def)

text \<open>
  C3. When the event is matched to the incident at position \<open>n\<close>, the shard keeps its
  length, only that incident changes and it keeps its id. If the event signals
  resolution the incident becomes \<open>resolved\<close> with \<open>resolved_at\<close> the event's time, whatever
  it was before; if the event does not and the incident was \<open>resolved\<close>, that same
  incident goes back to \<open>investigating\<close> with \<open>resolved_at\<close> null.
\<close>

theorem resolution_and_reopen:
  assumes found: "findMatchingIncident sh ev = Some n"
    and result: "upsertIncidentInShard sh ev = (sh', incident)"
  shows "n < length (items sh) \<and> length (items sh') = length (items sh)
       \<and> items sh' ! n = incident
       \<and> (\<forall>m. m \<noteq> n \<longrightarrow> items sh' ! m = items sh ! m)
       \<and> inc_id incident = inc_id (items sh ! n)
       \<and> (incidentStatus ev = ''resolved''
            \<longrightarrow> status incident = ''resolved'' \<and> resolved_at incident = Some (receivedAt ev))
       \<and> (incidentStatus ev \<noteq> ''resolved'' \<and> status (items sh ! n) = ''resolved''
            \<longrightarrow> status incident = ''investigating'' \<and> resolved_at incident = None)"
proof -
  have n: "n < length (items sh)" using found by (rule findMatchingIncident_bound)
  from upsert_matched [OF found] result
  have sh': "sh' = sh\<lparr>items := (items sh)[n := incident]\<rparr>"
    and inc: "incident = addUpdate (mergeEvent (items sh ! n) ev) ev"
    by simp_all
  show ?thesis
    using n by (simp add: sh' inc addUpdate_fields mergeEvent_fields mergeEvent_status)
qed

text \<open>
  The resolved sample incident is reopened by a third, non-resolving event, and
  resolved again (at the new time) by a resolving one.
\<close>

theorem resolution_and_reopen_witness:
  "findMatchingIncident \<lparr>period = ''2024-03'', items = [sample_incident]\<rparr>
       (sample_event ''m3'' 1709287200000 ''minor'' ''investigating'') = Some 0
   \<and> status sample_incident = ''resolved''
   \<and> status (snd (upsertIncidentInShard \<lparr>period = ''2024-03'', items = [sample_incident]\<rparr>
                    (sample_event ''m3'' 1709287200000 ''minor'' ''investigating''))) = ''investigating''
   \<and> resolved_at (snd (upsertIncidentInShard \<lparr>period = ''2024-03'', items = [sample_incident]\<rparr>
                    (sample_event ''m3'' 1709287200000 ''minor'' ''investigating''))) = None
   \<and> length (items (fst (upsertIncidentInShard \<lparr>period = ''2024-03'', items = [sample_incident]\<rparr>
                    (sample_event ''m3'' 1709287200000 ''minor'' ''investigating'')))) = 1
   \<and> status (snd (upsertIncidentInShard \<lparr>period = ''2024-03'', items = [sample_incident]\<rparr>
                    (sample_event ''m4'' 1709290800000 ''minor'' ''resolved''))) = ''resolved''
   \<and> resolved_at (snd (upsertIncidentInShard \<lparr>period = ''2024-03'', items = [sample_incident]\<rparr>
                    (sample_event ''m4'' 1709290800000 ''minor'' ''resolved''))) = Some 1709290800000"
proof -
  let ?sh = "\<lparr>period = ''2024-03'', items = [sample_incident]\<rparr>"
  let ?e3 = "sample_event ''m3'' 1709287200000 ''minor'' ''investigating''"
  let ?e4 = "sample_event ''m4'' 1709290800000 ''minor'' ''resolved''"
  have f3: "findMatchingIncident ?sh ?e3 = Some 0"
    by (simp add: sample_match sample_key)
  have f4: "findMatchingIncident ?sh ?e4 = Some 0"
    by (simp add: sample_match sample_key)
  have s: "status sample_incident = ''resolved''" by (simp add: sample_incident_def)
  have e3: "incidentStatus ?e3 \<noteq> ''resolved''" "incidentStatus ?e4 = ''resolved''"
    "receivedAt ?e4 = 1709290800000"
    by (simp_all add: sample_event_def)
  from resolution_and_reopen [OF f3 surjective_pairing] resolution_and_reopen [OF f4 surjective_pairing]
    f3 s e3
  show ?thesis by simp
qed




lemma addUpdate_updates:
  "updates (addUpdate i ev) =
     (if list_ex (\<lambda>u. source_message_id u = messageId ev) (updates i) then updates i
      else sort_key timestamp (updates i @ [updateOf ev]))"
  by (simp add: addUpdate_def Let_def)




subsection \<open>Parsing and applying a message\<close>




lemma addUpdate_has_message:
  "list_ex (\<lambda>u. source_message_id u = messageId ev) (updates (addUpdate i ev))"
  by (auto simp: addUpdate_updates list_ex_iff updateOf_def)




lemma applyEventToRepo_parts:
  "applyEventToRepo r ev =
     (\<lparr>index_files = (if getShardRepoPathForDate (receivedAt ev) \<notin> set (index_files r)
                       then saveIncidentsIndex (index_files r @ [getShardRepoPathForDate (receivedAt ev)])
                       else index_files r),
       shard_files = (shard_files r)(getShardRepoPathForDate (receivedAt ev) \<mapsto>
          saveShard (fst (upsertIncidentInShard
            ((loadShard r (getShardRepoPathForDate (receivedAt ev)) (take 7 (isoDate (receivedAt ev))))
               \<lparr>period := take 7 (isoDate (receivedAt ev))\<rparr>) ev)))\<rparr>,
      snd (upsertIncidentInShard
            ((loadShard r (getShardRepoPathForDate (receivedAt ev)) (take 7 (isoDate (receivedAt ev))))
               \<lparr>period := take 7 (isoDate (receivedAt ev))\<rparr>) ev))"
  by (simp add: applyEventToRepo_def Let_def split: prod.splits)




lemmas reconcile_eval =
  applyEvents_def applyEventToRepo_parts emptyRepo_def loadShard_def upsertIncidentInShard_def
  findMatchingIncident_def candidatesFor_def matchesEvent_def firstOpenOrHead_def newIncident_def
  mergeEvent_def createIncidentId_def addUpdate_def updateOf_def saveShard_def
  saveIncidentsIndex_def uniqueFirst_def collectAllIncidents_def Let_def
  march_date march_path april_date april_path


subsection \<open>Sequences of events\<close>

lemma no_candidates:
  assumes "findMatchingIncident sh ev = None"
  shows "\<forall>i\<in>set (items sh). \<not> matchesEvent ev i"
proof
  fix i assume i: "i \<in> set (items sh)"
  from assms have "candidatesFor sh ev = []"
    by (simp add: findMatchingIncident_def Let_def split: if_splits)
  then have "set (filter (\<lambda>(n, i). matchesEvent ev i) (enumerate 0 (items sh))) = {}"
    unfolding candidatesFor_def by (metis set_empty set_sort)
  then have none: "\<forall>p\<in>set (enumerate 0 (items sh)). \<not> matchesEvent ev (snd p)"
    by (auto simp: filter_empty_conv)
  from i obtain n where "n < length (items sh)" "items sh ! n = i"
    by (auto simp: in_set_conv_nth)
  then have "(n, i) \<in> set (enumerate 0 (items sh))"
    by (simp add: in_set_enumerate_eq)
  with none show "\<not> matchesEvent ev i" by force
qed

lemma upsert_keys_distinct:
  assumes "distinct (map ingestion_key (items sh))"
  shows "distinct (map ingestion_key (items (fst (upsertIncidentInShard sh ev))))"
proof (cases "findMatchingIncident sh ev")
  case None
  from no_candidates [OF None] have "\<forall>i\<in>set (items sh). ingestion_key i \<noteq> subjectKey ev"
    by (auto simp: matchesEvent_def)
  then have "subjectKey ev \<notin> ingestion_key ` set (items sh)" by auto
  then show ?thesis
    using assms None by (simp add: upsert_created addUpdate_fields newIncident_def)
next
  case (Some n)
  then have n: "n < length (items sh)" by (rule findMatchingIncident_bound)
  have "map ingestion_key ((items sh)[n := addUpdate (mergeEvent (items sh ! n) ev) ev])
          = map ingestion_key (items sh)"
    using n by (simp add: map_update addUpdate_fields mergeEvent_fields list_update_same_conv)
  then show ?thesis using assms Some by (simp add: upsert_matched)
qed

lemma saveShard_keys_distinct:
  "distinct (map ingestion_key (items (saveShard sh))) = distinct (map ingestion_key (items sh))"
proof -
  have "mset (map ingestion_key (sort_key (\<lambda>i. - started_at i) (items sh)))
          = mset (map ingestion_key (items sh))"
    by simp
  then show ?thesis
    unfolding saveShard_def by (simp add: mset_eq_imp_distinct_iff)
qed

lemma keysDistinct_apply:
  assumes "keysDistinct r"
  shows "keysDistinct (fst (applyEventToRepo r ev))"
proof -
  let ?p = "getShardRepoPathForDate (receivedAt ev)"
  let ?per = "take 7 (isoDate (receivedAt ev))"
  have "distinct (map ingestion_key (items (loadShard r ?p ?per)))"
    using assms by (auto simp: keysDistinct_def loadShard_def split: option.splits)
  then have "distinct (map ingestion_key (items ((loadShard r ?p ?per)\<lparr>period := ?per\<rparr>)))"
    by simp
  then have "distinct (map ingestion_key (items (saveShard (fst (upsertIncidentInShard
               ((loadShard r ?p ?per)\<lparr>period := ?per\<rparr>) ev)))))"
    unfolding saveShard_keys_distinct by (rule upsert_keys_distinct)
  then show ?thesis
    using assms by (auto simp: keysDistinct_def applyEventToRepo_parts)
qed

lemma keysDistinct_applyEvents:
  "keysDistinct r \<Longrightarrow> keysDistinct (applyEvents r evs)"
proof (induction evs arbitrary: r)
  case Nil
  then show ?case by (simp add: applyEvents_def)
next
  case (Cons ev evs)
  from Cons.prems have "keysDistinct (fst (applyEventToRepo r ev))" by (rule keysDistinct_apply)
  then have "keysDistinct (applyEvents (fst (applyEventToRepo r ev)) evs)" by (rule Cons.IH)
  then show ?case by (simp add: applyEvents_def)
qed

lemma keysDistinct_empty: "keysDistinct emptyRepo"
  by (simp add: keysDistinct_def emptyRepo_def)

lemma distinct_key_filter:
  "distinct (map f xs) \<Longrightarrow> length (filter (\<lambda>x. f x = k \<and> P x) xs) \<le> 1"
proof (induction xs)
  case Nil
  then show ?case by simp
next
  case (Cons x xs)
  show ?case
  proof (cases "f x = k")
    case True
    with Cons.prems have "k \<notin> f ` set xs" by simp
    then have "\<forall>y\<in>set xs. f y \<noteq> k" by blast
    then have "filter (\<lambda>x. f x = k \<and> P x) xs = []" by (simp add: filter_empty_conv)
    then show ?thesis by simp
  next
    case False
    with Cons show ?thesis by simp
  qed
qed

text \<open>
  C2, as amended. After any sequence of events applied one at a time from the empty
  store, every monthly shard holds at most one incident for a given match key, open or
  not; so at most one open incident per key and shard. The shard read is the one
  \<open>loadShard\<close> gives for any path.
\<close>

theorem one_incident_per_key_and_shard:
  "length (filter (\<lambda>i. ingestion_key i = k \<and> status i = ''investigating'')
             (items (loadShard (applyEvents emptyRepo evs) path per))) \<le> 1
   \<and> length (filter (\<lambda>i. ingestion_key i = k)
             (items (loadShard (applyEvents emptyRepo evs) path per))) \<le> 1"
proof -
  have "keysDistinct (applyEvents emptyRepo evs)"
    using keysDistinct_empty by (rule keysDistinct_applyEvents)
  then have d: "distinct (map ingestion_key (items (loadShard (applyEvents emptyRepo evs) path per)))"
    by (auto simp: keysDistinct_def loadShard_def split: option.splits)
  from distinct_key_filter [OF d, of k "\<lambda>i. status i = ''investigating''"]
       distinct_key_filter [OF d, of k "\<lambda>i. True"]
  show ?thesis by simp
qed

text \<open>
  An event for the key \<open>signal-problem\<close> on 2024-03-01 and another for the same key on
  2024-04-15, both \<open>investigating\<close> (two dates that lie in different months in every
  time zone): the second is looked up in the April shard only, so a second incident is
  opened and the store holds two open incidents with that key.
\<close>

theorem one_open_per_key_counterexample:
  "length (filter (\<lambda>i. ingestion_key i = ''signal-problem'' \<and> status i = ''investigating'')
     (collectAllIncidents (applyEvents emptyRepo
        [sample_event ''m1'' 1709280000000 ''major'' ''investigating'',
         sample_event ''m5'' 1713168000000 ''minor'' ''investigating'']))) = 2"
  by (simp add: reconcile_eval sample_event_def)

subsection \<open>Applying an event twice\<close>

lemma enumerate_update:
  assumes "n < length xs"
  shows "enumerate 0 (xs[n := y]) =
           map (\<lambda>p. (fst p, if fst p = n \<and> snd p = xs ! n then y else snd p)) (enumerate 0 xs)"
proof (rule nth_equalityI)
  show "length (enumerate 0 (xs[n := y])) =
        length (map (\<lambda>p. (fst p, if fst p = n \<and> snd p = xs ! n then y else snd p)) (enumerate 0 xs))"
    by simp
next
  fix i assume "i < length (enumerate 0 (xs[n := y]))"
  then have i: "i < length xs" by simp
  then show "enumerate 0 (xs[n := y]) ! i =
        map (\<lambda>p. (fst p, if fst p = n \<and> snd p = xs ! n then y else snd p)) (enumerate 0 xs) ! i"
    by (simp add: nth_enumerate_eq nth_list_update)
qed

lemma candidates_update:
  assumes n: "n < length (items sh)"
    and mx: "matchesEvent ev (items sh ! n)"
    and my: "matchesEvent ev y"
    and st: "started_at y = started_at (items sh ! n)"
  shows "candidatesFor (sh\<lparr>items := (items sh)[n := y]\<rparr>) ev =
           map (\<lambda>p. (fst p, if fst p = n \<and> snd p = items sh ! n then y else snd p))
               (candidatesFor sh ev)"
proof -
  let ?g = "\<lambda>p. (fst p, if fst p = n \<and> snd p = items sh ! n then y else snd p)"
  let ?P = "\<lambda>(n, i). matchesEvent ev i"
  let ?k = "\<lambda>(n, i). - started_at i"
  have F: "filter ?P (map ?g es) = map ?g (filter ?P es)" for es :: "(nat \<times> incident) list"
    using mx my by (induction es) auto
  have I: "insort_key ?k (?g x) (map ?g ys) = map ?g (insort_key ?k x ys)"
    for x and ys :: "(nat \<times> incident) list"
    using st by (induction ys) (auto simp: case_prod_beta)
  have S: "sort_key ?k (map ?g es) = map ?g (sort_key ?k es)" for es :: "(nat \<times> incident) list"
    by (induction es) (simp_all add: I)
  show ?thesis
    unfolding candidatesFor_def by (simp add: enumerate_update [OF n] F S)
qed

lemma candidates_members:
  assumes "(m, j) \<in> set (candidatesFor sh ev)"
  shows "m < length (items sh) \<and> j = items sh ! m \<and> matchesEvent ev j"
  using assms by (auto simp: candidatesFor_def in_set_enumerate_eq)

lemma found_in_candidates:
  assumes "findMatchingIncident sh ev = Some n"
  shows "candidatesFor sh ev \<noteq> [] \<and> firstOpenOrHead (candidatesFor sh ev) = n
         \<and> (n, items sh ! n) \<in> set (candidatesFor sh ev)"
proof -
  let ?c = "candidatesFor sh ev"
  from assms have ne: "?c \<noteq> []" and n: "n = firstOpenOrHead ?c"
    by (auto simp: findMatchingIncident_def Let_def split: if_splits)
  have "\<exists>i. (n, i) \<in> set ?c"
  proof (cases "find (\<lambda>(n, i). status i \<noteq> ''resolved'') ?c")
    case None
    then have "n = fst (hd ?c)" using n by (simp add: firstOpenOrHead_def)
    moreover have "hd ?c \<in> set ?c" using ne by simp
    ultimately show ?thesis by (metis prod.collapse)
  next
    case (Some p)
    then have "p \<in> set ?c" by (simp add: find_in_set)
    moreover have "n = fst p" using n Some by (simp add: firstOpenOrHead_def split: prod.splits)
    ultimately show ?thesis by (metis prod.collapse)
  qed
  then obtain i where i: "(n, i) \<in> set ?c" by blast
  with candidates_members [OF i] ne n show ?thesis by simp
qed

lemma find_open_after:
  assumes "find (\<lambda>(n, i). status i \<noteq> ''resolved'') S = Some (n, i)"
    and "\<forall>p\<in>set S. fst p = n \<longrightarrow> snd p = X"
    and "status Y \<noteq> ''resolved''"
  shows "find (\<lambda>(n, i). status i \<noteq> ''resolved'')
           (map (\<lambda>p. (fst p, if fst p = n \<and> snd p = X then Y else snd p)) S) = Some (n, Y)"
  using assms
proof (induction S)
  case Nil
  then show ?case by simp
next
  case (Cons p S)
  obtain m j where p: "p = (m, j)" by (cases p)
  show ?case
  proof (cases "m = n")
    case True
    with Cons.prems(2) p have "j = X" by simp
    with True p Cons.prems(3) show ?thesis by simp
  next
    case False
    with Cons.prems(1) p have no: "\<not> status j \<noteq> ''resolved''"
      by (auto split: if_splits)
    with Cons.prems(1) p have "find (\<lambda>(n, i). status i \<noteq> ''resolved'') S = Some (n, i)"
      by simp
    with Cons.IH Cons.prems have "find (\<lambda>(n, i). status i \<noteq> ''resolved'')
           (map (\<lambda>p. (fst p, if fst p = n \<and> snd p = X then Y else snd p)) S) = Some (n, Y)"
      by simp
    with False p no show ?thesis by simp
  qed
qed

lemma firstOpenOrHead_after_open:
  assumes ne: "S \<noteq> []" and f: "firstOpenOrHead S = n"
    and mem: "\<forall>p\<in>set S. fst p = n \<longrightarrow> snd p = X"
    and st: "status Y \<noteq> ''resolved''"
  shows "firstOpenOrHead (map (\<lambda>p. (fst p, if fst p = n \<and> snd p = X then Y else snd p)) S) = n"
proof (cases "find (\<lambda>(n, i). status i \<noteq> ''resolved'') S")
  case None
  with f have h: "fst (hd S) = n" by (simp add: firstOpenOrHead_def)
  from ne obtain p S' where S: "S = p # S'" by (cases S) auto
  with h mem have "p = (n, X)" by (cases p) auto
  with S st show ?thesis by (simp add: firstOpenOrHead_def)
next
  case (Some p)
  with f have "fst p = n" by (simp add: firstOpenOrHead_def split: prod.splits)
  then have "p = (n, snd p)" by (cases p) auto
  with Some have "find (\<lambda>(n, i). status i \<noteq> ''resolved'') S = Some (n, snd p)" by simp
  from find_open_after [OF this mem st] show ?thesis by (simp add: firstOpenOrHead_def)
qed

lemma firstOpenOrHead_after_single:
  assumes ne: "S \<noteq> []" and f: "firstOpenOrHead S = n" and len: "length S \<le> 1"
    and mem: "\<forall>p\<in>set S. fst p = n \<longrightarrow> snd p = X"
  shows "firstOpenOrHead (map (\<lambda>p. (fst p, if fst p = n \<and> snd p = X then Y else snd p)) S) = n"
proof -
  from ne len obtain p where S: "S = [p]" by (cases S) auto
  with f have "fst p = n" by (auto simp: firstOpenOrHead_def split: if_splits prod.splits)
  with S mem have "p = (n, X)" by (cases p) auto
  with S show ?thesis by (simp add: firstOpenOrHead_def)
qed

lemma length_candidates:
  "length (candidatesFor sh ev) = length (filter (matchesEvent ev) (items sh))"
proof -
  have "length (filter (matchesEvent ev \<circ> snd) es) = length (filter (matchesEvent ev) (map snd es))"
    for es :: "(nat \<times> incident) list"
    by (simp add: filter_map)
  from this [of "enumerate 0 (items sh)"]
  have l: "length (filter (matchesEvent ev \<circ> snd) (enumerate 0 (items sh)))
          = length (filter (matchesEvent ev) (items sh))"
    by simp
  have eq: "(\<lambda>(n, i). matchesEvent ev i) = matchesEvent ev \<circ> snd"
    by (simp add: fun_eq_iff)
  have "length (candidatesFor sh ev)
          = length (filter (\<lambda>(n, i). matchesEvent ev i) (enumerate 0 (items sh)))"
    by (simp add: candidatesFor_def)
  then show ?thesis unfolding eq l .
qed

lemma refind_matched:
  assumes found: "findMatchingIncident sh ev = Some n"
    and my: "matchesEvent ev y"
    and st: "started_at y = started_at (items sh ! n)"
    and pick: "status y \<noteq> ''resolved'' \<or> length (filter (matchesEvent ev) (items sh)) \<le> 1"
  shows "findMatchingIncident (sh\<lparr>items := (items sh)[n := y]\<rparr>) ev = Some n"
proof -
  let ?S = "candidatesFor sh ev"
  let ?g = "\<lambda>p. (fst p, if fst p = n \<and> snd p = items sh ! n then y else snd p)"
  from found_in_candidates [OF found]
  have ne: "?S \<noteq> []" and f: "firstOpenOrHead ?S = n" and inS: "(n, items sh ! n) \<in> set ?S"
    by simp_all
  from candidates_members [OF inS] have n: "n < length (items sh)"
    and mx: "matchesEvent ev (items sh ! n)" by simp_all
  have mem: "\<forall>p\<in>set ?S. fst p = n \<longrightarrow> snd p = items sh ! n"
    using candidates_members [of _ _ sh ev] by (metis prod.collapse)
  have c: "candidatesFor (sh\<lparr>items := (items sh)[n := y]\<rparr>) ev = map ?g ?S"
    by (rule candidates_update [OF n mx my st])
  have "firstOpenOrHead (map ?g ?S) = n"
    using pick
  proof
    assume "status y \<noteq> ''resolved''"
    then show ?thesis by (rule firstOpenOrHead_after_open [OF ne f mem])
  next
    assume "length (filter (matchesEvent ev) (items sh)) \<le> 1"
    then have "length ?S \<le> 1" by (simp add: length_candidates)
    then show ?thesis by (rule firstOpenOrHead_after_single [OF ne f _ mem])
  qed
  with ne show ?thesis
    by (simp add: findMatchingIncident_def c Let_def)
qed

lemma refind_created:
  assumes none: "findMatchingIncident sh ev = None"
    and key: "ingestion_key y = subjectKey ev"
  shows "findMatchingIncident (sh\<lparr>items := items sh @ [y]\<rparr>) ev = Some (length (items sh))"
proof -
  from no_candidates [OF none]
  have "filter (\<lambda>(n, i). matchesEvent ev i) (enumerate 0 (items sh)) = []"
    by (auto simp: filter_empty_conv in_set_enumerate_eq)
  then have "candidatesFor (sh\<lparr>items := items sh @ [y]\<rparr>) ev = [(length (items sh), y)]"
    using key by (simp add: candidatesFor_def enumerate_append_eq matchesEvent_def)
  then show ?thesis
    by (simp add: findMatchingIncident_def firstOpenOrHead_def Let_def)
qed


lemma uniqueFirst_absorb:
  assumes "distinct c" and "set b \<subseteq> set c"
  shows "uniqueFirst (c @ b) = c"
proof -
  have "remdups (rev b @ rev c) = remdups (rev c)"
    using assms(2) by (intro remdups_append) simp
  then show ?thesis
    using assms(1) by (simp add: uniqueFirst_def distinct_remdups_id)
qed

lemma uniqueFirst_props: "distinct (uniqueFirst xs) \<and> set (uniqueFirst xs) = set xs"
  by (simp add: uniqueFirst_def)

lemma rankGreater_irrefl: "\<not> rankGreater a a"
  by (auto simp: rankGreater_def split: option.splits)

lemma rankGreater_asym: "rankGreater b a \<Longrightarrow> \<not> rankGreater a b"
  by (auto simp: rankGreater_def split: option.splits)

lemma mergeEvent_fixed:
  assumes "orElse (inc_title w) (title ev) = inc_title w"
    and "uniqueFirst (affected_segments w @ affectedSegments ev) = affected_segments w"
    and "orElse (summary ev) (inc_summary w) = inc_summary w"
    and "\<not> rankGreater (severityRank (severity ev)) (severityRank (inc_severity w))"
    and "incidentStatus ev = ''resolved'' \<longrightarrow>
           status w = ''resolved'' \<and> resolved_at w = Some (receivedAt ev)"
    and "incidentStatus ev \<noteq> ''resolved'' \<longrightarrow>
           status w \<noteq> ''resolved'' \<and> orElse (incidentStatus ev) (status w) = status w"
  shows "mergeEvent w ev = w"
  using assms by (simp add: mergeEvent_def Let_def)

lemma addUpdate_again: "addUpdate (addUpdate z ev) ev = addUpdate z ev"
  using addUpdate_has_message [of ev z] by (simp add: addUpdate_def [of "addUpdate z ev"])

lemma second_pass_created:
  assumes segs: "distinct (affectedSegments ev)"
  shows "addUpdate (mergeEvent (addUpdate (newIncident ids ev) ev) ev) ev
           = addUpdate (newIncident ids ev) ev"
proof -
  let ?w = "addUpdate (newIncident ids ev) ev"
  have "mergeEvent ?w ev = ?w"
  proof (rule mergeEvent_fixed)
    show "uniqueFirst (affected_segments ?w @ affectedSegments ev) = affected_segments ?w"
      using segs by (simp add: addUpdate_fields newIncident_def uniqueFirst_absorb)
  qed (simp_all add: addUpdate_fields newIncident_def orElse_def rankGreater_irrefl)
  then show ?thesis by (simp add: addUpdate_again)
qed

lemma second_pass_matched:
  assumes st: "incidentStatus ev = ''resolved'' \<or> incidentStatus ev = ''investigating''"
  shows "addUpdate (mergeEvent (addUpdate (mergeEvent x ev) ev) ev) ev
           = addUpdate (mergeEvent x ev) ev"
proof -
  let ?w = "addUpdate (mergeEvent x ev) ev"
  have "mergeEvent ?w ev = ?w"
  proof (rule mergeEvent_fixed)
    show "uniqueFirst (affected_segments ?w @ affectedSegments ev) = affected_segments ?w"
      by (simp add: addUpdate_fields mergeEvent_fields uniqueFirst_absorb uniqueFirst_props)
    show "\<not> rankGreater (severityRank (severity ev)) (severityRank (inc_severity ?w))"
      by (simp add: addUpdate_fields mergeEvent_severity rankGreater_irrefl)
    show "incidentStatus ev \<noteq> ''resolved'' \<longrightarrow>
           status ?w \<noteq> ''resolved'' \<and> orElse (incidentStatus ev) (status ?w) = status ?w"
      using st by (auto simp: addUpdate_fields mergeEvent_status orElse_def)
  qed (simp_all add: addUpdate_fields mergeEvent_fields mergeEvent_status orElse_def)
  then show ?thesis by (simp add: addUpdate_again)
qed

lemma merged_still_matches:
  assumes "matchesEvent ev x"
  shows "matchesEvent ev (addUpdate (mergeEvent x ev) ev)"
  using assms
  by (auto simp: matchesEvent_def addUpdate_fields mergeEvent_fields orElse_def)

text \<open>
  C1, as amended. Applying the same event twice gives the shard, and the incident
  returned, that applying it once gives, for every shard, when the event is one the
  parser can produce (status \<open>resolved\<close> or \<open>investigating\<close>, no segment listed twice) and,
  if it signals resolution, at most one incident of the shard matches it.
\<close>

theorem upsert_idempotent:
  assumes segs: "distinct (affectedSegments ev)"
    and st: "incidentStatus ev = ''resolved'' \<or> incidentStatus ev = ''investigating''"
    and one: "incidentStatus ev = ''resolved'' \<longrightarrow>
                length (filter (matchesEvent ev) (items sh)) \<le> 1"
  shows "upsertIncidentInShard (fst (upsertIncidentInShard sh ev)) ev = upsertIncidentInShard sh ev"
proof (cases "findMatchingIncident sh ev")
  case None
  let ?y = "addUpdate (newIncident (map inc_id (items sh)) ev) ev"
  have key: "ingestion_key ?y = subjectKey ev"
    by (simp add: addUpdate_fields newIncident_def)
  have again: "findMatchingIncident (sh\<lparr>items := items sh @ [?y]\<rparr>) ev = Some (length (items sh))"
    by (rule refind_created [OF None key])
  have "addUpdate (mergeEvent ?y ev) ev = ?y"
    by (rule second_pass_created [OF segs])
  then show ?thesis
    by (simp add: upsert_created [OF None] upsert_matched [OF again])
next
  case (Some n)
  let ?x = "items sh ! n"
  let ?y = "addUpdate (mergeEvent ?x ev) ev"
  from found_in_candidates [OF Some] have "(n, ?x) \<in> set (candidatesFor sh ev)" by simp
  from candidates_members [OF this] have n: "n < length (items sh)" and mx: "matchesEvent ev ?x"
    by simp_all
  have my: "matchesEvent ev ?y" using mx by (rule merged_still_matches)
  have sy: "started_at ?y = started_at ?x" by (simp add: addUpdate_fields mergeEvent_fields)
  have pick: "status ?y \<noteq> ''resolved'' \<or> length (filter (matchesEvent ev) (items sh)) \<le> 1"
    using st one by (auto simp: addUpdate_fields mergeEvent_status orElse_def)
  have again: "findMatchingIncident (sh\<lparr>items := (items sh)[n := ?y]\<rparr>) ev = Some n"
    by (rule refind_matched [OF Some my sy pick])
  have "addUpdate (mergeEvent ?y ev) ev = ?y"
    by (rule second_pass_matched [OF st])
  then show ?thesis
    using n by (simp add: upsert_matched [OF Some] upsert_matched [OF again])
qed

lemma parsed_event_well_formed:
  "distinct (affectedSegments (buildParsedEvent now msg))
   \<and> (incidentStatus (buildParsedEvent now msg) = ''resolved''
        \<or> incidentStatus (buildParsedEvent now msg) = ''investigating'')"
  by (simp add: buildParsedEvent_def inferAffectedSegments_def inferSeverityAndStatus_def Let_def)

text \<open>The sample incident and a resolving event: one matching incident.\<close>

theorem upsert_idempotent_witness:
  "distinct (affectedSegments (sample_event ''m4'' 1709290800000 ''minor'' ''resolved''))
   \<and> length (filter (matchesEvent (sample_event ''m4'' 1709290800000 ''minor'' ''resolved''))
               [sample_incident]) \<le> 1
   \<and> upsertIncidentInShard
        (fst (upsertIncidentInShard \<lparr>period = ''2024-03'', items = [sample_incident]\<rparr>
               (sample_event ''m4'' 1709290800000 ''minor'' ''resolved'')))
        (sample_event ''m4'' 1709290800000 ''minor'' ''resolved'')
      = upsertIncidentInShard \<lparr>period = ''2024-03'', items = [sample_incident]\<rparr>
          (sample_event ''m4'' 1709290800000 ''minor'' ''resolved'')"
proof -
  let ?sh = "\<lparr>period = ''2024-03'', items = [sample_incident]\<rparr>"
  let ?ev = "sample_event ''m4'' 1709290800000 ''minor'' ''resolved''"
  have h1: "distinct (affectedSegments ?ev)" by (simp add: sample_event_def)
  have h2: "incidentStatus ?ev = ''resolved'' \<or> incidentStatus ?ev = ''investigating''"
    by (simp add: sample_event_def)
  have l: "length (filter (matchesEvent ?ev) [sample_incident]) \<le> 1" by simp
  then have h3: "incidentStatus ?ev = ''resolved'' \<longrightarrow>
                   length (filter (matchesEvent ?ev) (items ?sh)) \<le> 1"
    by simp
  from upsert_idempotent [OF h1 h2 h3] h1 l show ?thesis by blast
qed

lemmas parse_eval =
  parsed_def buildParsedEvent_def normalizeSubject_def slugify_def string_eval
  firstNonEmptyLine_def summarizeBody_def inferSeverityAndStatus_def inferAffectedSegments_def

lemma first_event:
  "parsed ''a1'' ''Foo bar'' ''Trains are late.'' 1709280000000 =
   \<lparr>messageId = Some ''a1'', receivedAt = 1709280000000, subject = ''Foo bar'',
    bodyText = ''Trains are late.'', subjectKey = ''foo-bar'', title = ''Foo bar'',
    summary = ''Trains are late.'', severity = ''minor'', incidentStatus = ''investigating'',
    updateState = ''degraded'', affectedSegments = [''System-wide''],
    updateMessage = ''Trains are late.''\<rparr>"
  by (simp add: parse_eval)

lemma second_event:
  "parsed ''a2'' ''service  update Foo-bar'' ''Trains are late.'' 1709281800000 =
   \<lparr>messageId = Some ''a2'', receivedAt = 1709281800000, subject = ''service  update Foo-bar'',
    bodyText = ''Trains are late.'', subjectKey = ''service-update-foo-bar'',
    title = ''Service update Foo-bar'',
    summary = ''Trains are late.'', severity = ''minor'', incidentStatus = ''investigating'',
    updateState = ''degraded'', affectedSegments = [''System-wide''],
    updateMessage = ''Trains are late.''\<rparr>"
  by (simp add: parse_eval)

lemma third_event:
  "parsed ''a3'' ''Foo-bar'' ''Service restored.'' 1709283600000 =
   \<lparr>messageId = Some ''a3'', receivedAt = 1709283600000, subject = ''Foo-bar'',
    bodyText = ''Service restored.'', subjectKey = ''foo-bar'', title = ''Foo-bar'',
    summary = ''Service restored.'', severity = ''minor'', incidentStatus = ''resolved'',
    updateState = ''operational'', affectedSegments = [''System-wide''],
    updateMessage = ''Service restored.''\<rparr>"
  by (simp add: parse_eval)

lemma titles:
  "normalizeSubject ''Foo bar'' = ''Foo bar''"
  "normalizeSubject ''Service update Foo-bar'' = ''Foo-bar''"
  "normalizeSubject ''Foo-bar'' = ''Foo-bar''"
  by (simp_all add: normalizeSubject_def string_eval)

lemma half_past_date: "isoDate 1709281800000 = ''2024-03-01''"
  by code_simp

lemma half_past_path:
  "getShardRepoPathForDate 1709281800000 = ''data/incidents/2024-03/incidents.json''"
  by code_simp

lemma two_incident_shard:
  "loadShard (applyEvents emptyRepo
          [parsed ''a1'' ''Foo bar'' ''Trains are late.'' 1709280000000,
           parsed ''a2'' ''service  update Foo-bar'' ''Trains are late.'' 1709281800000])
        ''data/incidents/2024-03/incidents.json'' ''2024-03''
     = \<lparr>period = ''2024-03'', items = [incident_b, incident_a]\<rparr>"
  by (simp add: first_event second_event titles half_past_date half_past_path
        reconcile_eval incident_a_def incident_b_def)

lemmas match_eval =
  findMatchingIncident_def candidatesFor_def matchesEvent_def firstOpenOrHead_def
  addUpdate_fields mergeEvent_fields mergeEvent_status orElse_def titles

lemma first_pass:
  "findMatchingIncident \<lparr>period = ''2024-03'', items = [incident_b, incident_a]\<rparr>
      (parsed ''a3'' ''Foo-bar'' ''Service restored.'' 1709283600000) = Some 0"
  by (simp add: third_event match_eval incident_a_def incident_b_def)

lemma second_pass:
  "findMatchingIncident
      \<lparr>period = ''2024-03'',
         items = [addUpdate (mergeEvent incident_b
                     (parsed ''a3'' ''Foo-bar'' ''Service restored.'' 1709283600000))
                     (parsed ''a3'' ''Foo-bar'' ''Service restored.'' 1709283600000),
                  incident_a]\<rparr>
      (parsed ''a3'' ''Foo-bar'' ''Service restored.'' 1709283600000) = Some 1"
  by (simp add: third_event match_eval incident_a_def incident_b_def)

text \<open>
  Three messages, as the script parses and stores them: \<open>Foo bar\<close> and
  \<open>service  update Foo-bar\<close> open two incidents; a resolving \<open>Foo-bar\<close> matches the
  first by key and the second by normalized title. Applied once, it resolves the
  newer incident and leaves the other open; applied again, it resolves the other one
  too, so the shards after one and after two applications differ.
\<close>

theorem idempotence_counterexample:
  "map status (items (fst (upsertIncidentInShard
      (loadShard (applyEvents emptyRepo
          [parsed ''a1'' ''Foo bar'' ''Trains are late.'' 1709280000000,
           parsed ''a2'' ''service  update Foo-bar'' ''Trains are late.'' 1709281800000])
        ''data/incidents/2024-03/incidents.json'' ''2024-03'')
      (parsed ''a3'' ''Foo-bar'' ''Service restored.'' 1709283600000))))
     = [''resolved'', ''investigating'']
   \<and> map status (items (fst (upsertIncidentInShard
      (fst (upsertIncidentInShard
        (loadShard (applyEvents emptyRepo
          [parsed ''a1'' ''Foo bar'' ''Trains are late.'' 1709280000000,
           parsed ''a2'' ''service  update Foo-bar'' ''Trains are late.'' 1709281800000])
         ''data/incidents/2024-03/incidents.json'' ''2024-03'')
        (parsed ''a3'' ''Foo-bar'' ''Service restored.'' 1709283600000)))
      (parsed ''a3'' ''Foo-bar'' ''Service restored.'' 1709283600000))))
     = [''resolved'', ''resolved'']"
  unfolding two_incident_shard
  by (simp add: upsert_matched [OF first_pass] upsert_matched [OF second_pass]
        addUpdate_fields mergeEvent_status)
     (simp add: third_event incident_a_def)

section \<open>Properties of the presentation path\<close>

lemma set_fold_addBuckets:
  "set (fold addBuckets cs acc) =
     set acc \<union> (\<Union>c\<in>set cs. {floorMinute (seg_start c) ..< ceilMinute (seg_end c)})"
proof (induction cs arbitrary: acc)
  case Nil
  then show ?case by simp
next
  case (Cons c cs)
  have "set (addBuckets c acc) = {floorMinute (seg_start c) ..< ceilMinute (seg_end c)} \<union> set acc"
    unfolding addBuckets_def List.union_def [symmetric] by auto
  then show ?case using Cons.IH [of "addBuckets c acc"] by auto
qed

lemma distinct_fold_addBuckets:
  "distinct acc \<Longrightarrow> distinct (fold addBuckets cs acc)"
proof (induction cs arbitrary: acc)
  case Nil
  then show ?case by simp
next
  case (Cons c cs)
  have "distinct (addBuckets c acc)"
    using Cons.prems unfolding addBuckets_def List.union_def [symmetric] by simp
  then show ?case using Cons.IH by simp
qed

lemma mergedDowntimeBuckets_card:
  "mergedDowntimeBuckets segments windowStart windowEnd =
     card (\<Union>c\<in>set (clippedSegments segments windowStart windowEnd).
             {floorMinute (seg_start c) ..< ceilMinute (seg_end c)})"
proof -
  have "length (fold addBuckets cs []) = card (set (fold addBuckets cs []))" for cs
    using distinct_fold_addBuckets [of "[]" cs] by (simp add: distinct_card)
  then show ?thesis
    by (simp add: mergedDowntimeBuckets_def Let_def set_fold_addBuckets)
qed

lemma set_map_filter_eq: "set (List.map_filter f xs) = {y. \<exists>x\<in>set xs. f x = Some y}"
  by (induction xs) (auto split: option.splits)

lemma set_clippedSegments:
  "set (clippedSegments segments windowStart windowEnd) =
     {c. \<exists>s\<in>set segments. clipSegment windowStart windowEnd s = Some c}"
  by (simp add: clippedSegments_def set_map_filter_eq)








lemma div_eq_iff:
  assumes "0 < m"
  shows "((t::int) div m = k) = (k * m \<le> t \<and> t < (k + 1) * m)"
proof
  assume "t div m = k"
  moreover have "t div m * m + t mod m = t" by simp
  moreover have "0 \<le> t mod m" "t mod m < m" using assms by simp_all
  ultimately show "k * m \<le> t \<and> t < (k + 1) * m"
    by (simp add: algebra_simps)
next
  assume h: "k * m \<le> t \<and> t < (k + 1) * m"
  show "t div m = k"
  proof (rule int_div_pos_eq)
    show "t = m * k + (t - m * k)" by simp
    show "0 \<le> t - m * k" using h by (simp add: algebra_simps)
    show "t - m * k < m" using h by (simp add: algebra_simps)
  qed
qed

lemma minute_of: "((t::int) div 60000 = k) = (k * 60000 \<le> t \<and> t < (k + 1) * 60000)"
  by (rule div_eq_iff) simp

lemma card_minute_preimage:
  "finite B \<Longrightarrow> finite {t::int. t div 60000 \<in> B} \<and> card {t::int. t div 60000 \<in> B} = 60000 * card B"
proof (induction B rule: finite_induct)
  case empty
  then show ?case by simp
next
  case (insert k B)
  have slot: "{k * 60000 ..< (k + 1) * 60000} = {t::int. t div 60000 = k}"
    unfolding minute_of by (simp add: set_eq_iff)
  have split: "{t::int. t div 60000 \<in> insert k B} = {k * 60000 ..< (k + 1) * 60000} \<union> {t. t div 60000 \<in> B}"
    unfolding slot by blast
  have disj: "{k * 60000 ..< (k + 1) * 60000} \<inter> {t::int. t div 60000 \<in> B} = {}"
    unfolding slot using insert.hyps by blast
  have "card ({k * 60000 ..< (k + 1) * 60000} \<union> {t::int. t div 60000 \<in> B})
          = card {k * 60000 ..< (k + 1) * 60000} + card {t::int. t div 60000 \<in> B}"
    using insert.IH disj by (intro card_Un_disjoint) simp_all
  moreover have "card (insert k B) = Suc (card B)"
    using insert.hyps by simp
  ultimately show ?case
    unfolding split using insert.IH by simp
qed


lemma aligned_minute: "aligned t \<Longrightarrow> floorMinute t = t div 60000 \<and> ceilMinute t = t div 60000 \<and> t = 60000 * (t div 60000)"
  unfolding aligned_def floorMinute_def ceilMinute_def
  by (auto simp: zdiv_zminus1_eq_if)

lemma minute_interval:
  assumes a: "j * 60000 \<le> t" and b: "t < (j + 1) * 60000"
  shows "(p \<le> j \<and> j < q) = (60000 * p \<le> (t::int) \<and> t < 60000 * q)"
proof -
  have 1: "p \<le> j \<Longrightarrow> 60000 * p \<le> t" using a by linarith
  have 2: "p \<le> j" if "60000 * p \<le> t"
  proof -
    have "60000 * p < 60000 * (j + 1)" using that b by linarith
    then show ?thesis by simp
  qed
  have 3: "t < 60000 * q" if "j < q"
  proof -
    have "j + 1 \<le> q" using that by simp
    then have "60000 * (j + 1) \<le> 60000 * q" by simp
    then show ?thesis using b by linarith
  qed
  have 4: "j < q" if "t < 60000 * q"
  proof -
    have "60000 * j < 60000 * q" using that a by linarith
    then show ?thesis by simp
  qed
  from 1 2 3 4 show ?thesis by blast
qed

lemma aligned_interval:
  assumes "aligned a" "aligned b"
  shows "{t. t div 60000 \<in> {floorMinute a ..< ceilMinute b}} = {a ..< b}"
proof -
  from aligned_minute [OF assms(1)] aligned_minute [OF assms(2)]
  obtain p q where a: "a = 60000 * p" "floorMinute a = p" and b: "b = 60000 * q" "ceilMinute b = q"
    by blast
  have "(p \<le> t div 60000 \<and> t div 60000 < q) = (60000 * p \<le> t \<and> t < 60000 * q)" for t :: int
  proof -
    have "(t div 60000) * 60000 \<le> t \<and> t < (t div 60000 + 1) * 60000"
      using minute_of [of t "t div 60000"] by simp
    then show ?thesis by (simp add: minute_interval)
  qed
  then show ?thesis unfolding a(2) b(2) unfolding a(1) b(1) by (simp add: set_eq_iff)
qed

lemma aligned_max_min: "aligned a \<Longrightarrow> aligned b \<Longrightarrow> aligned (max a b) \<and> aligned (min a b)"
  by (simp add: max_def min_def)

lemma clipped_union:
  "(\<Union>c\<in>{c. \<exists>s\<in>S. f s = Some c}. I c) = (\<Union>s\<in>S. case f s of None \<Rightarrow> {} | Some c \<Rightarrow> I c)"
proof (rule set_eqI)
  fix x
  show "(x \<in> (\<Union>c\<in>{c. \<exists>s\<in>S. f s = Some c}. I c)) = (x \<in> (\<Union>s\<in>S. case f s of None \<Rightarrow> {} | Some c \<Rightarrow> I c))"
  proof
    assume "x \<in> (\<Union>c\<in>{c. \<exists>s\<in>S. f s = Some c}. I c)"
    then obtain c s where "s \<in> S" "f s = Some c" "x \<in> I c" by blast
    then show "x \<in> (\<Union>s\<in>S. case f s of None \<Rightarrow> {} | Some c \<Rightarrow> I c)" by force
  next
    assume "x \<in> (\<Union>s\<in>S. case f s of None \<Rightarrow> {} | Some c \<Rightarrow> I c)"
    then obtain s where s: "s \<in> S" "x \<in> (case f s of None \<Rightarrow> {} | Some c \<Rightarrow> I c)" by blast
    then obtain c where "f s = Some c" "x \<in> I c" by (cases "f s") auto
    with s(1) show "x \<in> (\<Union>c\<in>{c. \<exists>s\<in>S. f s = Some c}. I c)" by blast
  qed
qed

lemma clip_interval:
  "(case clipSegment ws we s of None \<Rightarrow> {} | Some c \<Rightarrow> {seg_start c ..< seg_end c})
     = {max (seg_start s) ws ..< min (seg_end s) we}"
  by (simp add: clipSegment_def Let_def)

lemma downtime_measure:
  assumes segs: "list_all (\<lambda>s. aligned (seg_start s) \<and> aligned (seg_end s)) segments"
    and win: "aligned ws" "aligned we"
  shows "60000 * mergedDowntimeBuckets segments ws we
           = card (\<Union>s\<in>set segments. {max (seg_start s) ws ..< min (seg_end s) we})"
proof -
  let ?B = "\<Union>c\<in>set (clippedSegments segments ws we).
             {floorMinute (seg_start c) ..< ceilMinute (seg_end c)}"
  let ?U = "\<Union>s\<in>set segments. {max (seg_start s) ws ..< min (seg_end s) we}"
  have fin: "finite ?B" by simp
  have "{t. t div 60000 \<in> ?B} = (\<Union>c\<in>set (clippedSegments segments ws we).
             {t. t div 60000 \<in> {floorMinute (seg_start c) ..< ceilMinute (seg_end c)}})"
    by auto
  also have "\<dots> = (\<Union>c\<in>set (clippedSegments segments ws we). {seg_start c ..< seg_end c})"
  proof (rule SUP_cong [OF refl])
    fix c assume "c \<in> set (clippedSegments segments ws we)"
    then obtain s where s: "s \<in> set segments" "clipSegment ws we s = Some c"
      by (auto simp: set_clippedSegments)
    from s(1) segs have al: "aligned (seg_start s)" "aligned (seg_end s)"
      by (auto simp: list_all_iff)
    from s(2) have "seg_start c = max (seg_start s) ws" "seg_end c = min (seg_end s) we"
      by (auto simp: clipSegment_def Let_def split: if_splits)
    with al win aligned_max_min have "aligned (seg_start c)" "aligned (seg_end c)" by auto
    then show "{t. t div 60000 \<in> {floorMinute (seg_start c) ..< ceilMinute (seg_end c)}}
                 = {seg_start c ..< seg_end c}"
      by (rule aligned_interval)
  qed
  also have "\<dots> = (\<Union>s\<in>set segments.
       case clipSegment ws we s of None \<Rightarrow> {} | Some c \<Rightarrow> {seg_start c ..< seg_end c})"
    unfolding set_clippedSegments by (rule clipped_union)
  also have "\<dots> = ?U"
    by (simp add: clip_interval)
  finally have "{t. t div 60000 \<in> ?B} = ?U" .
  with card_minute_preimage [OF fin] show ?thesis
    by (simp add: mergedDowntimeBuckets_card)
qed






text \<open>
  C4, as amended. The downtime of a window is the number of distinct minute buckets
  that the clipped segments touch; no bucket is counted twice. When the segments and
  the window lie on minute boundaries, that number of minutes is the measure of the
  union of the clipped segments (the number of milliseconds in it, over 60000).
\<close>

theorem downtime_buckets:
  "mergedDowntimeBuckets segments ws we =
     card (\<Union>c\<in>set (clippedSegments segments ws we).
             {floorMinute (seg_start c) ..< ceilMinute (seg_end c)})
   \<and> (list_all (\<lambda>s. aligned (seg_start s) \<and> aligned (seg_end s)) segments \<and> aligned ws \<and> aligned we
        \<longrightarrow> 60000 * mergedDowntimeBuckets segments ws we
              = card (\<Union>s\<in>set segments. {max (seg_start s) ws ..< min (seg_end s) we}))"
  using mergedDowntimeBuckets_card downtime_measure by blast

text \<open>
  The two examples of the claim with the minute as the time unit: segments
  \<open>[0, 10)\<close> and \<open>[5, 15)\<close> over the window \<open>[0, 15)\<close> give 15 minutes, and
  \<open>[-5, 5)\<close> against \<open>[0, 10)\<close> gives 5.
\<close>

theorem downtime_buckets_witness:
  "mergedDowntimeBuckets [\<lparr>seg_start = 0, seg_end = 600000, seg_severity = ''major''\<rparr>,
       \<lparr>seg_start = 300000, seg_end = 900000, seg_severity = ''minor''\<rparr>] 0 900000 = 15
   \<and> card (\<Union>s\<in>set [\<lparr>seg_start = 0, seg_end = 600000, seg_severity = ''major''\<rparr>,
       \<lparr>seg_start = 300000, seg_end = 900000, seg_severity = ''minor''\<rparr>].
          {max (seg_start s) 0 ..< min (seg_end s) 900000}) = 60000 * 15
   \<and> mergedDowntimeBuckets [\<lparr>seg_start = - 300000, seg_end = 300000, seg_severity = ''major''\<rparr>] 0 600000 = 5
   \<and> card (\<Union>s\<in>set [\<lparr>seg_start = - 300000, seg_end = 300000, seg_severity = ''major''\<rparr>].
          {max (seg_start s) 0 ..< min (seg_end s) 600000}) = 60000 * 5"
proof -
  let ?a = "[\<lparr>seg_start = 0, seg_end = 600000, seg_severity = ''major''\<rparr>,
       \<lparr>seg_start = 300000, seg_end = 900000, seg_severity = ''minor''\<rparr>]"
  let ?b = "[\<lparr>seg_start = - 300000, seg_end = 300000, seg_severity = ''major''\<rparr>]"
  have a: "mergedDowntimeBuckets ?a 0 900000 = 15" by code_simp
  have b: "mergedDowntimeBuckets ?b 0 600000 = 5" by code_simp
  have ha: "list_all (\<lambda>s. aligned (seg_start s) \<and> aligned (seg_end s)) ?a \<and> aligned 0 \<and> aligned 900000"
    by (simp add: aligned_def)
  have hb: "list_all (\<lambda>s. aligned (seg_start s) \<and> aligned (seg_end s)) ?b \<and> aligned 0 \<and> aligned 600000"
    by (simp add: aligned_def)
  have ea: "60000 * mergedDowntimeBuckets ?a 0 900000
              = card (\<Union>s\<in>set ?a. {max (seg_start s) 0 ..< min (seg_end s) 900000})"
    using downtime_buckets [of ?a 0 900000] ha by blast
  have eb: "60000 * mergedDowntimeBuckets ?b 0 600000
              = card (\<Union>s\<in>set ?b. {max (seg_start s) 0 ..< min (seg_end s) 600000})"
    using downtime_buckets [of ?b 0 600000] hb by blast
  show ?thesis
  proof (intro conjI)
    show "mergedDowntimeBuckets ?a 0 900000 = 15" by (rule a)
    show "mergedDowntimeBuckets ?b 0 600000 = 5" by (rule b)
    show "card (\<Union>s\<in>set ?a. {max (seg_start s) 0 ..< min (seg_end s) 900000}) = 60000 * 15"
      using ea unfolding a by (rule sym)
    show "card (\<Union>s\<in>set ?b. {max (seg_start s) 0 ..< min (seg_end s) 600000}) = 60000 * 5"
      using eb unfolding b by (rule sym)
  qed
qed

text \<open>
  In the time values the code works on (milliseconds) the two examples give one bucket
  each, not 15 and 5; and half a minute of outage in a window of one minute counts as
  the whole minute, so the window's uptime is 0 and not 50.
\<close>

theorem downtime_measure_counterexample:
  "mergedDowntimeBuckets [\<lparr>seg_start = 0, seg_end = 10, seg_severity = ''major''\<rparr>,
       \<lparr>seg_start = 5, seg_end = 15, seg_severity = ''minor''\<rparr>] 0 15 = 1
   \<and> mergedDowntimeBuckets [\<lparr>seg_start = - 5, seg_end = 5, seg_severity = ''major''\<rparr>] 0 10 = 1
   \<and> mergedDowntimeBuckets [\<lparr>seg_start = 0, seg_end = 30000, seg_severity = ''major''\<rparr>] 0 60000 = 1
   \<and> uptimeForWindow [\<lparr>seg_start = 0, seg_end = 30000, seg_severity = ''major''\<rparr>] 0 60000 = 0"
  by code_simp

text \<open>
  C9, as amended. The band of a daily bucket is \<open>operational\<close> from 98 percent up,
  \<open>degraded\<close> from 95 up to 98, \<open>major\<close> below 95, and never \<open>critical\<close>.
\<close>

theorem recent_days_band:
  "e \<in> set (recent_days segments completedDayBoundary) \<Longrightarrow>
     (98 \<le> uptime_percent e \<longrightarrow> uptime_band e = ''operational'')
   \<and> (95 \<le> uptime_percent e \<and> uptime_percent e < 98 \<longrightarrow> uptime_band e = ''degraded'')
   \<and> (uptime_percent e < 95 \<longrightarrow> uptime_band e = ''major'')
   \<and> uptime_band e \<noteq> ''critical''"
  by (auto simp: recent_days_def recentDay_def Let_def uptimeBandForPercent_def split: if_splits)

text \<open>A day without outage.\<close>

theorem recent_days_band_witness:
  "recentDay [] 0 \<in> set (recent_days [] 0)
   \<and> uptime_percent (recentDay [] 0) = 100
   \<and> uptime_band (recentDay [] 0) = ''operational''"
proof -
  have "recentDay [] (addDays 0 0) \<in> (\<lambda>offset. recentDay [] (addDays 0 offset)) ` set [-29 .. 0]"
    by (rule imageI) simp
  then have m: "recentDay [] 0 \<in> set (recent_days [] 0)"
    by (simp add: recent_days_def addDays_def)
  have p: "uptime_percent (recentDay [] 0) = 100"
    by code_simp
  from recent_days_band [OF m] m p show ?thesis by simp
qed

text \<open>
  A day with fifteen minutes of outage has an uptime of \<open>2375 / 24\<close> percent, between
  97 and 99: the thresholds of the claim (those of \<open>severityForUptimePercent\<close>) say
  \<open>major\<close>, the daily bucket says \<open>operational\<close>.
\<close>

theorem daily_band_counterexample:
  "uptime_percent (recentDay [\<lparr>seg_start = 0, seg_end = 900000, seg_severity = ''major''\<rparr>] 0) = 2375 / 24
   \<and> (97::real) \<le> 2375 / 24 \<and> (2375 / 24 :: real) < 99
   \<and> uptime_band (recentDay [\<lparr>seg_start = 0, seg_end = 900000, seg_severity = ''major''\<rparr>] 0) = ''operational''
   \<and> severityForUptimePercent (2375 / 24) = ''major''"
  by code_simp

text \<open>
  C10. \<open>normalizeSeverity\<close> is total on JavaScript values and lands in the canonical
  set: a falsy value and \<open>resolved\<close> give \<open>operational\<close>; \<open>identified\<close>,
  \<open>investigating\<close> and \<open>monitoring\<close> give \<open>degraded\<close>; \<open>minor\<close>, \<open>degraded\<close>,
  \<open>major\<close> and \<open>critical\<close> are kept; every other non-empty string gives \<open>degraded\<close>.
\<close>

theorem normalizeSeverity_total:
  "normalizeSeverity v \<in> {''operational'', ''minor'', ''degraded'', ''major'', ''critical''}
   \<and> (\<not> truthy v \<longrightarrow> normalizeSeverity v = ''operational'')
   \<and> normalizeSeverity (JString ''resolved'') = ''operational''
   \<and> (s \<in> {''identified'', ''investigating'', ''monitoring''}
        \<longrightarrow> normalizeSeverity (JString s) = ''degraded'')
   \<and> (s \<in> {''minor'', ''degraded'', ''major'', ''critical''}
        \<longrightarrow> normalizeSeverity (JString s) = s)
   \<and> (s \<noteq> [] \<and> s \<notin> {''minor'', ''degraded'', ''major'', ''critical'', ''identified'',
                         ''investigating'', ''monitoring'', ''resolved''}
        \<longrightarrow> normalizeSeverity (JString s) = ''degraded'')"
  by (simp add: normalizeSeverity_def)

theorem normalizeSeverity_total_witness:
  "normalizeSeverity (JNumber 0) = ''operational''
   \<and> normalizeSeverity (JString ''operational'') = ''degraded''
   \<and> normalizeSeverity (JString ''operational'')
        \<in> {''operational'', ''minor'', ''degraded'', ''major'', ''critical''}"
  using normalizeSeverity_total [of "JNumber 0" "''operational''"]
        normalizeSeverity_total [of "JString ''operational''" "''operational''"]
  by simp

end
